theory Spec2Isabelle
  imports Main "HOL-Library.Word"
begin

section \<open>The process and its environment\<close>

text \<open>
  The shell of \<^verbatim>\<open>main.c\<close> is modelled as functions on an explicit state. What the C
  library and the kernel decide (whether an allocation succeeds, what \<^verbatim>\<open>fork\<close> returns,
  the size of a pointer) is read from a record \<open>os\<close>, so that every theorem below holds
  for every such environment unless it says otherwise.
\<close>

datatype errno = ERANGE | EINVAL | Errno nat

datatype fork_result =
    Fork_child                \<comment> \<open>\<^verbatim>\<open>pid == 0\<close>: this process is the new child\<close>
  | Fork_failed errno         \<comment> \<open>\<^verbatim>\<open>pid < 0\<close>\<close>
  | Fork_parent int           \<comment> \<open>\<^verbatim>\<open>pid > 0\<close>; the status the child will end with\<close>

record os =
  sizeof_char_ptr :: nat                          \<comment> \<open>\<^verbatim>\<open>sizeof(char*)\<close>\<close>
  can_alloc :: "nat \<Rightarrow> bool"                     \<comment> \<open>\<^verbatim>\<open>malloc\<close>/\<^verbatim>\<open>realloc\<close> of so many bytes succeeds\<close>
  pathconf_PATH_MAX :: int                        \<comment> \<open>\<^verbatim>\<open>pathconf(".", _PC_PATH_MAX)\<close>\<close>
  getcwd_errno :: "errno option"                  \<comment> \<open>a failure of \<^verbatim>\<open>getcwd\<close> that is not about the size\<close>
  chdir :: "string \<Rightarrow> string \<Rightarrow> errno + string"  \<comment> \<open>from a directory, a path: the new directory\<close>
  fork :: fork_result
  execvp :: "string list \<Rightarrow> errno option"        \<comment> \<open>\<open>None\<close>: the image is replaced\<close>
  strerror :: "errno \<Rightarrow> string"

text \<open>
  A history entry is a block from \<^verbatim>\<open>malloc\<close>: the number of bytes asked for, and the bytes
  that \<^verbatim>\<open>strcpy\<close> wrote from its start (terminator included). The block is kept as
  written even when it is longer than what was asked for; \<open>in_bounds\<close> says whether it
  fits.
\<close>

record heap_string =
  alloc_size :: nat
  bytes :: "char list"

record shell =
  history_str :: "heap_string option list"   \<comment> \<open>\<^verbatim>\<open>char* history_str[USH_MAX_HISTORY_COUNT]\<close>\<close>
  history_pos :: nat
  stdout :: string
  stderr :: string
  cwd :: string

datatype halt =
    Exited int        \<comment> \<open>\<^verbatim>\<open>exit(status)\<close>\<close>
  | Exec_replaced     \<comment> \<open>\<^verbatim>\<open>execvp\<close> succeeded: the process runs another program\<close>
  | End_of_input      \<comment> \<open>\<^verbatim>\<open>getline\<close> found no further line\<close>

datatype 'a result = Ret 'a shell | Halt halt shell

definition EXIT_SUCCESS :: int where
  "EXIT_SUCCESS = 0"

definition EXIT_FAILURE :: int where
  "EXIT_FAILURE = 1"

definition printf :: "shell \<Rightarrow> string \<Rightarrow> shell" where
  "printf sh text = sh\<lparr>stdout := stdout sh @ text\<rparr>"

definition fprintf_stderr :: "shell \<Rightarrow> string \<Rightarrow> shell" where
  "fprintf_stderr sh text = sh\<lparr>stderr := stderr sh @ text\<rparr>"

definition perror :: "os \<Rightarrow> shell \<Rightarrow> string \<Rightarrow> errno \<Rightarrow> shell" where
  "perror os sh prefix e = fprintf_stderr sh (prefix @ '': '' @ strerror os e @ ''\<newline>'')"

fun state_of :: "'a result \<Rightarrow> shell" where
  "state_of (Ret _ sh) = sh"
| "state_of (Halt _ sh) = sh"

fun returned :: "'a result \<Rightarrow> 'a option" where
  "returned (Ret v _) = Some v"
| "returned (Halt _ _) = None"

text \<open>
  An argument list \<^verbatim>\<open>char **args\<close> is the list of the strings before its \<^verbatim>\<open>NULL\<close>:
  \<^verbatim>\<open>args[0] == NULL\<close> is \<open>args = []\<close>.
\<close>

type_synonym handler = "os \<Rightarrow> string list \<Rightarrow> shell \<Rightarrow> int result"

section \<open>C strings and strtok\<close>

text \<open>
  A buffer is the list of its bytes, a pointer into it is an offset, and the C string at
  an offset runs up to the first terminator. \<^verbatim>\<open>getline\<close> returns the line it read (the
  newline included) followed by the terminator: \<open>c_string\<close>.
\<close>

type_synonym buffer = "char list"

definition NUL :: char where
  "NUL = CHR 0x00"

definition c_string :: "string \<Rightarrow> buffer" where
  "c_string s = s @ [NUL]"

definition cstr_at :: "buffer \<Rightarrow> nat \<Rightarrow> string" where
  "cstr_at b p = takeWhile (\<lambda>c. c \<noteq> NUL) (drop p b)"

definition strlen :: "buffer \<Rightarrow> nat" where
  "strlen b = length (cstr_at b 0)"

definition at_NUL :: "buffer \<Rightarrow> nat \<Rightarrow> bool" where
  "at_NUL b i \<longleftrightarrow> length b \<le> i \<or> b ! i = NUL"

definition strspn_at :: "buffer \<Rightarrow> nat \<Rightarrow> string \<Rightarrow> nat" where
  "strspn_at b p accept = length (takeWhile (\<lambda>c. c \<noteq> NUL \<and> c \<in> set accept) (drop p b))"

definition strcspn_at :: "buffer \<Rightarrow> nat \<Rightarrow> string \<Rightarrow> nat" where
  "strcspn_at b p reject = length (takeWhile (\<lambda>c. c \<noteq> NUL \<and> c \<notin> set reject) (drop p b))"

text \<open>
  \<^verbatim>\<open>strtok\<close>, with its saved pointer made explicit. From offset \<open>p\<close> it skips the
  delimiters; at the terminator it returns \<^verbatim>\<open>NULL\<close>. Otherwise it returns the offset of
  the token, overwrites the delimiter that ends the token with the terminator and saves
  the offset after it; a token that ends the string leaves the buffer as it is and saves
  the offset of the terminator.
\<close>

definition strtok :: "buffer \<Rightarrow> nat \<Rightarrow> string \<Rightarrow> nat option \<times> buffer \<times> nat" where
  "strtok b p delim =
     (let s = p + strspn_at b p delim in
      if at_NUL b s then (None, b, s)
      else let e = s + strcspn_at b s delim in
        if at_NUL b e then (Some s, b, e)
        else (Some s, b[e := NUL], e + 1))"

section \<open>The tokenizer\<close>

definition USH_TOK_BUFSIZE :: nat where
  "USH_TOK_BUFSIZE = 64"

definition USH_TOK_DELIM :: string where
  "USH_TOK_DELIM =
     [CHR '' '', CHR 0x22, CHR 0x09, CHR 0x0D, CHR 0x0A, CHR 0x07, CHR ''('', CHR '')'']"

text \<open>
  The state of \<^verbatim>\<open>ush_split_line\<close>. \<open>tokens\<close> holds the values the function has stored at
  \<^verbatim>\<open>tokens[0]\<close>, \<^verbatim>\<open>tokens[1]\<close>, ... in this order (\<open>pos\<close> only ever grows by one, after a
  store at \<^verbatim>\<open>tokens[pos]\<close>); a stored token is its offset in the line, \<open>None\<close> is \<^verbatim>\<open>NULL\<close>.
  Where the stores land is kept apart from what is stored: \<open>alloc_bytes\<close> is the size in
  bytes of the block that \<^verbatim>\<open>tokens\<close> points to, as last passed to \<^verbatim>\<open>malloc\<close> or
  \<^verbatim>\<open>realloc\<close>, and \<open>oob_stores\<close> lists the slots whose store did not fit in that block
  when it was made.
\<close>

record split_state =
  line :: buffer
  save_ptr :: nat
  token :: "nat option"
  tokens :: "nat option list"
  pos :: nat
  bufsize :: nat
  alloc_bytes :: nat
  oob_stores :: "nat list"

text \<open>\<^verbatim>\<open>tokens[pos] = v\<close>\<close>

definition store_slot :: "os \<Rightarrow> split_state \<Rightarrow> nat option \<Rightarrow> split_state" where
  "store_slot os st v =
     st\<lparr>tokens := tokens st @ [v],
        oob_stores := (if (pos st + 1) * sizeof_char_ptr os \<le> alloc_bytes st
                       then oob_stores st else oob_stores st @ [pos st])\<rparr>"

text \<open>\<^verbatim>\<open>token = strtok(NULL, USH_TOK_DELIM)\<close>\<close>

definition next_token :: "split_state \<Rightarrow> split_state" where
  "next_token st =
     (case strtok (line st) (save_ptr st) USH_TOK_DELIM of
        (tok, b, p) \<Rightarrow> st\<lparr>line := b, save_ptr := p, token := tok\<rparr>)"

lemma strtok_save_ge: "strtok b p d = (r, b', p') \<Longrightarrow> p \<le> p' \<and> length b' = length b"
  by (auto simp: strtok_def Let_def split: if_splits)

lemma strcspn_pos: "\<not> at_NUL b s \<Longrightarrow> b ! s \<notin> set d \<Longrightarrow> 0 < strcspn_at b s d"
  by (cases "drop s b")
     (auto simp: strcspn_at_def at_NUL_def hd_drop_conv_nth Cons_nth_drop_Suc [symmetric])

lemma stop_takeWhile_drop:
  "p + length (takeWhile P (drop p b)) < length b
   \<Longrightarrow> \<not> P (b ! (p + length (takeWhile P (drop p b))))"
  using nth_length_takeWhile [of P "drop p b"] by (simp add: add.commute)

lemma strspn_stop:
  "\<not> at_NUL b (p + strspn_at b p d) \<Longrightarrow> b ! (p + strspn_at b p d) \<notin> set d"
  unfolding strspn_at_def at_NUL_def
  using stop_takeWhile_drop [of p "\<lambda>c. c \<noteq> NUL \<and> c \<in> set d" b] by auto

lemma strtok_Some_advances:
  assumes "strtok b p d = (Some t, b', p')"
  shows "p < p'" and "p' \<le> length b" and "p < length b"
proof -
  define s where "s = p + strspn_at b p d"
  define e where "e = s + strcspn_at b s d"
  from assms have ns: "\<not> at_NUL b s"
    by (auto simp: strtok_def Let_def s_def split: if_splits)
  then have sl: "s < length b" by (simp add: at_NUL_def)
  have "b ! s \<notin> set d" using ns strspn_stop [of b p d] by (simp add: s_def)
  then have "0 < strcspn_at b s d" using ns by (rule strcspn_pos [rotated])
  then have se: "s < e" by (simp add: e_def)
  have el: "e \<le> length b"
    using length_takeWhile_le [of "\<lambda>c. c \<noteq> NUL \<and> c \<notin> set d" "drop s b"] sl
    by (simp add: e_def strcspn_at_def)
  from assms have p': "p' = e \<or> (p' = e + 1 \<and> \<not> at_NUL b e)"
    by (auto simp: strtok_def Let_def s_def e_def split: if_splits)
  have ps: "p \<le> s" by (simp add: s_def)
  show "p < p'" using p' ps se by auto
  show "p' \<le> length b" using p' el by (auto simp: at_NUL_def)
  show "p < length b" using ps sl by simp
qed

lemma next_token_measure:
  "length (line (next_token X)) - save_ptr (next_token X)
     + (case token (next_token X) of None \<Rightarrow> 0 | Some _ \<Rightarrow> 1)
   < length (line X) - save_ptr X + 1"
proof -
  obtain r b' p' where tk: "strtok (line X) (save_ptr X) USH_TOK_DELIM = (r, b', p')"
    by (cases "strtok (line X) (save_ptr X) USH_TOK_DELIM") auto
  show ?thesis
  proof (cases r)
    case None
    with tk strtok_save_ge [OF tk] show ?thesis by (auto simp add: next_token_def)
  next
    case (Some t)
    with tk strtok_Some_advances [of "line X" "save_ptr X" USH_TOK_DELIM t b' p']
      strtok_save_ge [OF tk]
    show ?thesis by (auto simp add: next_token_def)
  qed
qed

text \<open>
  The loop of \<^verbatim>\<open>ush_split_line\<close>. When \<open>pos\<close> reaches \<open>bufsize\<close>, the source doubles
  \<open>bufsize\<close> and calls \<^verbatim>\<open>realloc(tokens, bufsize)\<close>: the new block has \<open>bufsize\<close> bytes.
  The loop ends because every call of \<^verbatim>\<open>strtok\<close> that returns a token moves the saved
  pointer forward.
\<close>

function split_loop :: "os \<Rightarrow> shell \<Rightarrow> split_state \<Rightarrow> split_state result" where
  "split_loop os sh st =
     (case token st of
        None \<Rightarrow> Ret st sh
      | Some t \<Rightarrow>
          (let st1 = (store_slot os st (Some t))\<lparr>pos := pos st + 1\<rparr> in
           if pos st1 = bufsize st1 then
             (let st2 = st1\<lparr>bufsize := bufsize st1 * 2\<rparr> in
              if \<not> can_alloc os (bufsize st2)
              then Halt (Exited EXIT_FAILURE) (fprintf_stderr sh ''ush: allocation error\<newline>'')
              else split_loop os sh (next_token (st2\<lparr>alloc_bytes := bufsize st2\<rparr>)))
           else split_loop os sh (next_token st1)))"
  by pat_completeness auto
termination
  apply (relation "measure (\<lambda>(os, sh, st).
           (length (line st) - save_ptr st) + (case token st of None \<Rightarrow> 0 | Some _ \<Rightarrow> 1))")
    apply simp
  subgoal for os sh st t st1 st2
    using next_token_measure [of "st2\<lparr>alloc_bytes := bufsize st2\<rparr>"]
    by (simp add: store_slot_def)
  subgoal for os sh st t st1
    using next_token_measure [of st1] by (simp add: store_slot_def)
  done

declare split_loop.simps [simp del]

definition ush_split_line :: "os \<Rightarrow> buffer \<Rightarrow> shell \<Rightarrow> split_state result" where
  "ush_split_line os l sh =
     (if \<not> can_alloc os (sizeof_char_ptr os * USH_TOK_BUFSIZE)
      then Halt (Exited EXIT_FAILURE) (fprintf_stderr sh ''ush: allocation error\<newline>'')
      else case strtok l 0 USH_TOK_DELIM of
        (tok, b, p) \<Rightarrow>
          (case split_loop os sh
                  \<lparr>line = b, save_ptr = p, token = tok, tokens = [], pos = 0,
                   bufsize = USH_TOK_BUFSIZE,
                   alloc_bytes = sizeof_char_ptr os * USH_TOK_BUFSIZE, oob_stores = []\<rparr> of
             Halt h sh' \<Rightarrow> Halt h sh'
           | Ret st sh' \<Rightarrow> Ret (store_slot os st None) sh'))"

text \<open>
  Reading the returned array as its callers do: the strings at the stored offsets, up to
  the first \<^verbatim>\<open>NULL\<close>. \<open>argv\<close> reads the values as they were stored; the callers read them
  from the block, which holds them when no store was outside it (\<open>oob_stores\<close> is empty).
\<close>

fun read_args :: "buffer \<Rightarrow> nat option list \<Rightarrow> string list" where
  "read_args b [] = []"
| "read_args b (None # _) = []"
| "read_args b (Some t # ts) = cstr_at b t # read_args b ts"

definition argv :: "split_state \<Rightarrow> string list" where
  "argv st = read_args (line st) (tokens st)"

text \<open>
  The tokens as the specification words them: the line is cut at every delimiter
  character, and the tokens are the pieces that are not empty.
\<close>

fun split_fields :: "string \<Rightarrow> string \<Rightarrow> string list" where
  "split_fields ds [] = [[]]"
| "split_fields ds (c # cs) =
     (if c \<in> set ds then [] # split_fields ds cs
      else (c # hd (split_fields ds cs)) # tl (split_fields ds cs))"

definition spec_tokens :: "string \<Rightarrow> string \<Rightarrow> string list" where
  "spec_tokens ds s = filter (\<lambda>f. f \<noteq> []) (split_fields ds s)"

section \<open>The history buffer\<close>

definition USH_MAX_HISTORY_COUNT :: nat where
  "USH_MAX_HISTORY_COUNT = 20"

definition sizeof_char :: nat where
  "sizeof_char = 1"

definition in_bounds :: "heap_string \<Rightarrow> bool" where
  "in_bounds e \<longleftrightarrow> length (bytes e) \<le> alloc_size e"

text \<open>
  \<^verbatim>\<open>strcpy(dest, src)\<close> writes the string at \<open>src\<close> and its terminator. \<open>bytes\<close> is what
  was written from the start of the block on, whether or not the block has room for it
  (\<open>in_bounds\<close>).
\<close>

definition strcpy :: "heap_string \<Rightarrow> buffer \<Rightarrow> heap_string" where
  "strcpy dest src = dest\<lparr>bytes := cstr_at src 0 @ [NUL]\<rparr>"

text \<open>
  \<^verbatim>\<open>add_to_history_util\<close>: the block comes from \<^verbatim>\<open>malloc(line_size * sizeof(char))\<close> with
  \<^verbatim>\<open>line_size = strlen(line)\<close>. The entry that was in the slot is freed, which the model
  shows as its being replaced.
\<close>

definition add_to_history_util :: "os \<Rightarrow> buffer \<Rightarrow> shell \<Rightarrow> unit result" where
  "add_to_history_util os l sh =
     (let line_size = strlen l in
      if \<not> can_alloc os (line_size * sizeof_char)
      then Halt (Exited EXIT_FAILURE) (fprintf_stderr sh ''ush: allocation error\<newline>'')
      else
        let history_entry = strcpy \<lparr>alloc_size = line_size * sizeof_char, bytes = []\<rparr> l in
        Ret () (sh\<lparr>history_str := (history_str sh)[history_pos sh := Some history_entry],
                   history_pos := (history_pos sh + 1) mod USH_MAX_HISTORY_COUNT\<rparr>))"

text \<open>\<^verbatim>\<open>printf("%4lu   %s\n", history_num, history_str[i])\<close>\<close>

fun decimal :: "nat \<Rightarrow> string" where
  "decimal n =
     (if n < 10 then [char_of (48 + n)]
      else decimal (n div 10) @ [char_of (48 + n mod 10)])"

definition pad_left :: "nat \<Rightarrow> string \<Rightarrow> string" where
  "pad_left w s = replicate (w - length s) CHR '' '' @ s"

definition history_line :: "nat \<Rightarrow> string \<Rightarrow> string" where
  "history_line history_num entry =
     pad_left 4 (decimal history_num) @ ''   '' @ entry @ ''\<newline>''"

text \<open>
  The array has \<open>USH_MAX_HISTORY_COUNT\<close> slots and \<open>history_pos\<close> is an index into it in
  every state the program reaches. For the other values of the state type, a read
  outside the list gives \<^verbatim>\<open>NULL\<close>, and the second conjunct of the loop condition stops the
  loop, so that the function is total; it is true whenever \<open>history_pos\<close> is an index.
\<close>

definition slot_at :: "shell \<Rightarrow> nat \<Rightarrow> heap_string option" where
  "slot_at sh i = (if i < length (history_str sh) then history_str sh ! i else None)"

function history_loop :: "shell \<Rightarrow> nat \<Rightarrow> nat \<Rightarrow> shell" where
  "history_loop sh i history_num =
     (let (sh1, num1) =
            (case slot_at sh i of
               Some e \<Rightarrow> (printf sh (history_line history_num (cstr_at (bytes e) 0)),
                          history_num + 1)
             | None \<Rightarrow> (sh, history_num));
          i1 = (i + 1) mod USH_MAX_HISTORY_COUNT
      in if i1 \<noteq> history_pos sh \<and> history_pos sh < USH_MAX_HISTORY_COUNT
         then history_loop sh1 i1 num1 else sh1)"
  by pat_completeness auto
termination
  apply (relation "measure (\<lambda>(sh, i, n).
           if i < 20
           then (if i < history_pos sh then history_pos sh - i else history_pos sh + 20 - i)
           else 21)")
   apply simp
  apply (auto simp: USH_MAX_HISTORY_COUNT_def printf_def mod_Suc split: option.splits if_splits)
  done

declare history_loop.simps [simp del]

definition ush_history :: handler where
  "ush_history os args sh = Ret 1 (history_loop sh (history_pos sh) 1)"

section \<open>The other builtins\<close>

definition builtin_str :: "string list" where
  "builtin_str = [''cd'', ''help'', ''exit'', ''echo'', ''history'', ''pwd'']"

definition ush_num_builtins :: nat where
  "ush_num_builtins = length builtin_str"

definition ush_cd :: handler where
  "ush_cd os args sh =
     (case drop 1 args of
        [] \<Rightarrow> Ret 1 (fprintf_stderr sh
                (''ush: expected argument with '' @ [CHR 0x22] @ ''cd'' @ [CHR 0x22] @ ''\<newline>''))
      | dir # _ \<Rightarrow>
          (case chdir os (cwd sh) dir of
             Inl e \<Rightarrow> Ret 1 (perror os sh ''ush'' e)
           | Inr d \<Rightarrow> Ret 1 (sh\<lparr>cwd := d\<rparr>)))"

function help_loop :: "shell \<Rightarrow> nat \<Rightarrow> shell" where
  "help_loop sh i =
     (if i < ush_num_builtins
      then help_loop (printf sh ([CHR 0x09] @ builtin_str ! i @ ''\<newline>'')) (i + 1)
      else sh)"
  by pat_completeness auto
termination
  by (relation "measure (\<lambda>(sh, i). ush_num_builtins - i)") auto

declare help_loop.simps [simp del]

definition ush_help :: handler where
  "ush_help os args sh =
     (let sh1 = printf sh ''Aditya Narad's Linux Shell\<newline>'';
          sh2 = printf sh1 ''How to Use Shell: Type the commands followed by arguments(if any) and press Enter.\<newline>'';
          sh3 = printf sh2 ''Following are the builtin commands :\<newline>''
      in Ret 1 (help_loop sh3 0))"

definition ush_exit :: handler where
  "ush_exit os args sh = Ret 0 sh"

text \<open>\<^verbatim>\<open>for (int i = 1; args[i] != NULL; i++) printf("%s ", args[i]);\<close>\<close>

fun echo_loop :: "string list \<Rightarrow> shell \<Rightarrow> shell" where
  "echo_loop [] sh = sh"
| "echo_loop (a # rest) sh = echo_loop rest (printf sh (a @ '' ''))"

definition ush_echo :: handler where
  "ush_echo os args sh = Ret 1 (printf (echo_loop (drop 1 args) sh) ''\<newline>'')"

text \<open>
  \<^verbatim>\<open>getcwd(buf, size)\<close>: \<^verbatim>\<open>EINVAL\<close> for a size of zero, \<^verbatim>\<open>ERANGE\<close> when the directory and
  its terminator do not fit in \<open>size\<close> bytes.
\<close>

definition getcwd :: "os \<Rightarrow> shell \<Rightarrow> nat \<Rightarrow> errno + string" where
  "getcwd os sh sz =
     (if sz = 0 then Inl EINVAL
      else case getcwd_errno os of
        Some e \<Rightarrow> Inl e
      | None \<Rightarrow> if sz < length (cwd sh) + 1 then Inl ERANGE else Inr (cwd sh))"

text \<open>
  The first size of \<^verbatim>\<open>ush_pwd\<close>, an \<^verbatim>\<open>unsigned int\<close>, from \<^verbatim>\<open>long path_max\<close>. The variable is
  named \<^verbatim>\<open>size\<close> in the source.
\<close>

definition pwd_initial_size :: "int \<Rightarrow> 32 word" where
  "pwd_initial_size path_max =
     (if path_max = - 1 then 1024
      else if path_max > 10240 then 10240
      else word_of_int path_max)"

lemma doubling_reaches_zero:
  fixes sz :: "32 word"
  assumes "sz \<noteq> 0"
  shows "(LEAST k. sz * 2 * 2 ^ k = 0) < (LEAST k. sz * 2 ^ k = 0)"
proof -
  define m where "m = (LEAST k. sz * 2 ^ k = 0)"
  have "(2 :: 32 word) ^ 32 = 0" by (simp only: exp_eq_zero_iff) simp
  then have "sz * 2 ^ 32 = 0" by (simp only: mult_zero_right)
  then have Pm: "sz * 2 ^ m = 0" unfolding m_def by (rule LeastI)
  with assms have "m \<noteq> 0" by (cases m) auto
  then obtain j where j: "m = Suc j" by (cases m) auto
  with Pm have "sz * 2 * 2 ^ j = 0" by (simp add: mult.assoc)
  then have "(LEAST k. sz * 2 * 2 ^ k = 0) \<le> j" by (rule Least_le)
  with j show ?thesis unfolding m_def by simp
qed

text \<open>
  \<^verbatim>\<open>for (buf = ptr = NULL; ptr == NULL; size *= 2)\<close>. The loop is left by a success, by an
  error that is not \<^verbatim>\<open>ERANGE\<close>, or by a failed \<^verbatim>\<open>realloc\<close>; it cannot go on for ever,
  since doubling a 32-bit size gives zero after at most 32 rounds and \<^verbatim>\<open>getcwd\<close> refuses
  a size of zero.
\<close>

function pwd_loop :: "os \<Rightarrow> shell \<Rightarrow> 32 word \<Rightarrow> int result" where
  "pwd_loop os sh sz =
     (if \<not> can_alloc os (unat sz)
      then Halt (Exited EXIT_FAILURE) (fprintf_stderr sh ''ush: allocation error\<newline>'')
      else case getcwd os sh (unat sz) of
        Inr ptr \<Rightarrow> Ret 1 (printf sh ptr)
      | Inl e \<Rightarrow>
          if e \<noteq> ERANGE then Ret 1 (perror os sh ''ush'' e)
          else pwd_loop os sh (sz * 2))"
  by pat_completeness auto
termination
  apply (relation "measure (\<lambda>(os, sh, sz). LEAST k. sz * 2 ^ k = 0)")
   apply simp
  apply (auto simp: getcwd_def unat_gt_0 intro!: doubling_reaches_zero
              split: if_splits option.splits)
  done

declare pwd_loop.simps [simp del]

definition ush_pwd :: handler where
  "ush_pwd os args sh = pwd_loop os sh (pwd_initial_size (pathconf_PATH_MAX os))"

definition builtin_func :: "handler list" where
  "builtin_func = [ush_cd, ush_help, ush_exit, ush_echo, ush_history, ush_pwd]"

section \<open>Launching, dispatching, the loop\<close>

text \<open>
  \<^verbatim>\<open>ush_launch\<close> in the process that runs it after \<^verbatim>\<open>fork\<close>. The child never returns from
  it: \<^verbatim>\<open>execvp\<close> replaces the program, or fails and the child exits. The parent waits
  with \<^verbatim>\<open>wait(NULL)\<close> and does not look at the status.
\<close>

definition ush_launch :: handler where
  "ush_launch os args sh =
     (case fork os of
        Fork_child \<Rightarrow>
          (case execvp os args of
             Some e \<Rightarrow> Halt (Exited EXIT_FAILURE) (perror os sh ''ush'' e)
           | None \<Rightarrow> Halt Exec_replaced sh)
      | Fork_failed e \<Rightarrow> Ret 1 (perror os sh ''ush'' e)
      | Fork_parent status \<Rightarrow> Ret 1 sh)"

function execute_scan :: "os \<Rightarrow> string list \<Rightarrow> shell \<Rightarrow> nat \<Rightarrow> int result" where
  "execute_scan os args sh i =
     (if i < ush_num_builtins then
        (if hd args = builtin_str ! i then (builtin_func ! i) os args sh
         else execute_scan os args sh (i + 1))
      else ush_launch os args sh)"
  by pat_completeness auto
termination
  by (relation "measure (\<lambda>(os, args, sh, i). ush_num_builtins - i)") auto

declare execute_scan.simps [simp del]

definition ush_execute :: handler where
  "ush_execute os args sh = (if args = [] then Ret 1 sh else execute_scan os args sh 0)"

text \<open>
  One round of \<^verbatim>\<open>ush_loop\<close> on the line that \<^verbatim>\<open>getline\<close> read: the line is split first,
  and \<^verbatim>\<open>add_to_history_util\<close> is then given the same buffer, as \<^verbatim>\<open>strtok\<close> left it.
\<close>

definition ush_loop_body :: "os \<Rightarrow> string \<Rightarrow> shell \<Rightarrow> int result" where
  "ush_loop_body os input sh =
     (let sh1 = printf sh ''\<newline>> '' in
      case ush_split_line os (c_string input) sh1 of
        Halt h sh2 \<Rightarrow> Halt h sh2
      | Ret st sh2 \<Rightarrow>
          (case (if argv st \<noteq> [] then add_to_history_util os (line st) sh2 else Ret () sh2) of
             Halt h sh3 \<Rightarrow> Halt h sh3
           | Ret _ sh3 \<Rightarrow> ush_execute os (argv st) sh3))"

text \<open>
  The loop over the lines of the standard input. The source does not test what
  \<^verbatim>\<open>getline\<close> returns; what the shell does once the input has ended is left out of the
  model, which stops there.
\<close>

fun ush_loop :: "os \<Rightarrow> string list \<Rightarrow> shell \<Rightarrow> unit result" where
  "ush_loop os [] sh = Halt End_of_input (printf sh ''\<newline>> '')"
| "ush_loop os (input # inputs) sh =
     (case ush_loop_body os input sh of
        Halt h sh1 \<Rightarrow> Halt h sh1
      | Ret status sh1 \<Rightarrow> if status \<noteq> 0 then ush_loop os inputs sh1 else Ret () sh1)"

section \<open>Notions for the statements and the proofs\<close>

text \<open>
  For the tokenizer: a stored token is \<open>terminated\<close> when a terminator lies between its
  offset and the saved pointer, so that later calls of \<^verbatim>\<open>strtok\<close> cannot change the string
  it points to; \<open>push_token\<close> and \<open>grow\<close> are the two updates of one round of the loop;
  \<open>pending\<close> is what the loop has still to store.
\<close>

definition terminated :: "buffer \<Rightarrow> nat \<Rightarrow> nat \<Rightarrow> bool" where
  "terminated b p t \<longleftrightarrow> (\<exists>e. t \<le> e \<and> e \<le> p \<and> at_NUL b e)"

definition push_token :: "os \<Rightarrow> split_state \<Rightarrow> nat \<Rightarrow> split_state" where
  "push_token os st t = (store_slot os st (Some t))\<lparr>pos := pos st + 1\<rparr>"

definition grow :: "split_state \<Rightarrow> split_state" where
  "grow st = st\<lparr>bufsize := bufsize st * 2, alloc_bytes := bufsize st * 2\<rparr>"

definition pending :: "split_state \<Rightarrow> string list" where
  "pending st =
     (case token st of
        None \<Rightarrow> []
      | Some t \<Rightarrow> cstr_at (line st) t # spec_tokens USH_TOK_DELIM (cstr_at (line st) (save_ptr st)))"

text \<open>
  \<open>tokens\<close> lists every value the function stores, also those stored outside the block.
  \<open>held_slots\<close> is the part of it that the block has room for: the slots that lie within
  the \<open>alloc_bytes\<close> bytes which \<^verbatim>\<open>malloc\<close> or \<^verbatim>\<open>realloc\<close> last gave. Nothing is known of the
  memory after these slots, so that an array whose \<open>held_slots\<close> have no \<^verbatim>\<open>NULL\<close> cannot be
  read up to its end marker without leaving the block.
\<close>

definition held_slots :: "os \<Rightarrow> split_state \<Rightarrow> nat option list" where
  "held_slots os st = take (alloc_bytes st div sizeof_char_ptr os) (tokens st)"

text \<open>
  For the history: \<open>history_text\<close> is the text that the listing prints, read off a run of
  the loop on a state that has printed nothing; \<open>render\<close> prints a list of slots with
  running numbers. \<open>record_all\<close> records lines one after the other, \<open>entry_for\<close> is the
  block that \<^verbatim>\<open>add_to_history_util\<close> builds for a line, \<open>most_recent\<close> keeps the last \<open>k\<close>
  elements of a list, and \<open>numbered_lines\<close> is the listing the specification describes:
  the entries in order, numbered from 1. \<open>ring_holds sh ls\<close> says that the history of
  \<open>sh\<close>, read from the cursor on, is the never-written slots followed by the most recent
  20 of the recorded lines \<open>ls\<close>.
\<close>

definition cell_text :: "heap_string option \<Rightarrow> nat \<Rightarrow> string" where
  "cell_text c n = (case c of None \<Rightarrow> [] | Some e \<Rightarrow> history_line n (cstr_at (bytes e) 0))"

definition cell_count :: "heap_string option \<Rightarrow> nat" where
  "cell_count c = (case c of None \<Rightarrow> 0 | Some e \<Rightarrow> 1)"

definition blank_with :: "heap_string option list \<Rightarrow> nat \<Rightarrow> shell" where
  "blank_with hs p = \<lparr>history_str = hs, history_pos = p, stdout = [], stderr = [], cwd = []\<rparr>"

definition history_text :: "heap_string option list \<Rightarrow> nat \<Rightarrow> nat \<Rightarrow> nat \<Rightarrow> string" where
  "history_text hs p i n = stdout (history_loop (blank_with hs p) i n)"

definition ring_distance :: "nat \<Rightarrow> nat \<Rightarrow> nat" where
  "ring_distance p i = (if i < 20 then (if i < p then p - i else p + 20 - i) else 21)"

fun render :: "nat \<Rightarrow> heap_string option list \<Rightarrow> string" where
  "render n [] = []"
| "render n (c # cs) = cell_text c n @ render (n + cell_count c) cs"

definition numbered_from :: "nat \<Rightarrow> string list \<Rightarrow> string" where
  "numbered_from n es = concat (map (\<lambda>(k, e). history_line k e) (zip [n..<n + length es] es))"

definition numbered_lines :: "string list \<Rightarrow> string" where
  "numbered_lines es = numbered_from 1 es"

definition most_recent :: "nat \<Rightarrow> 'a list \<Rightarrow> 'a list" where
  "most_recent k xs = drop (length xs - k) xs"

fun entries_of :: "heap_string option list \<Rightarrow> string list" where
  "entries_of [] = []"
| "entries_of (None # cs) = entries_of cs"
| "entries_of (Some e # cs) = cstr_at (bytes e) 0 # entries_of cs"

definition entry_for :: "buffer \<Rightarrow> heap_string" where
  "entry_for l = \<lparr>alloc_size = strlen l * sizeof_char, bytes = cstr_at l 0 @ [NUL]\<rparr>"

text \<open>
  \<open>bytes\<close> lists every byte that \<^verbatim>\<open>strcpy\<close> writes, also those written after the block.
  \<open>block_string\<close> is the string that the block of an entry holds within its
  \<open>alloc_size\<close> bytes; it is \<open>None\<close> when these bytes have no terminator, and then
  \<^verbatim>\<open>printf("%s")\<close> on the entry reads past the block.
\<close>

definition block_string :: "heap_string \<Rightarrow> string option" where
  "block_string e =
     (let held = take (alloc_size e) (bytes e) in
      if NUL \<in> set held then Some (cstr_at held 0) else None)"

fun record_all :: "os \<Rightarrow> buffer list \<Rightarrow> shell \<Rightarrow> unit result" where
  "record_all os [] sh = Ret () sh"
| "record_all os (l # ls) sh =
     (case add_to_history_util os l sh of
        Halt h sh1 \<Rightarrow> Halt h sh1
      | Ret _ sh1 \<Rightarrow> record_all os ls sh1)"

definition ring_holds :: "shell \<Rightarrow> buffer list \<Rightarrow> bool" where
  "ring_holds sh ls \<longleftrightarrow>
     length (history_str sh) = 20 \<and> history_pos sh < 20
     \<and> rotate (history_pos sh) (history_str sh)
         = replicate (20 - length ls) None @ map (Some \<circ> entry_for) (most_recent 20 ls)"

section \<open>States and environments for evaluation\<close>

text \<open>
  \<open>blank_shell\<close> is the state in which \<^verbatim>\<open>main\<close> enters the loop, before anything is
  printed: every slot of the history is \<^verbatim>\<open>NULL\<close> and \<open>history_pos\<close> is 0.
\<close>

definition blank_shell :: shell where
  "blank_shell = \<lparr>history_str = replicate 20 None, history_pos = 0,
     stdout = [], stderr = [], cwd = ''/''\<rparr>"

definition lp64_os :: os where
  "lp64_os = \<lparr>sizeof_char_ptr = 8, can_alloc = (\<lambda>n. True), pathconf_PATH_MAX = 4096,
     getcwd_errno = None, chdir = (\<lambda>d p. Inr p), fork = Fork_parent 0,
     execvp = (\<lambda>args. None), strerror = (\<lambda>e. ''error'')\<rparr>"

section \<open>The tokenizer: what it returns\<close>

subsection \<open>The specification's tokens\<close>

lemma split_fields_nonempty: "split_fields ds s \<noteq> []"
  by (induction s) auto

lemma fields_token_prefix:
  "\<forall>c\<in>set t. c \<notin> set ds \<Longrightarrow> split_fields ds (t @ s) = (t @ hd (split_fields ds s)) # tl (split_fields ds s)"
  by (induction t) (auto simp: split_fields_nonempty)

lemma spec_tokens_skip:
  "\<forall>c\<in>set u. c \<in> set ds \<Longrightarrow> spec_tokens ds (u @ s) = spec_tokens ds s"
  by (induction u) (auto simp: spec_tokens_def)

lemma spec_tokens_token:
  "t \<noteq> [] \<Longrightarrow> \<forall>c\<in>set t. c \<notin> set ds \<Longrightarrow> z \<in> set ds \<Longrightarrow>
     spec_tokens ds (t @ z # s) = t # spec_tokens ds s"
  by (simp add: spec_tokens_def fields_token_prefix)

lemma spec_tokens_last:
  "t \<noteq> [] \<Longrightarrow> \<forall>c\<in>set t. c \<notin> set ds \<Longrightarrow> spec_tokens ds t = [t]"
  using fields_token_prefix [of t ds "[]"] by (simp add: spec_tokens_def)

lemma spec_tokens_Nil: "spec_tokens ds [] = []"
  by (simp add: spec_tokens_def)

lemma spec_tokens_delims:
  "\<forall>c\<in>set u. c \<in> set ds \<Longrightarrow> spec_tokens ds u = []"
  using spec_tokens_skip [of u ds "[]"] by (simp add: spec_tokens_def)


subsection \<open>One call of strtok\<close>

lemma takeWhile_conj_split:
  "takeWhile (\<lambda>c. c \<noteq> n) xs
     = takeWhile (\<lambda>c. c \<noteq> n \<and> Q c) xs @ takeWhile (\<lambda>c. c \<noteq> n) (dropWhile (\<lambda>c. c \<noteq> n \<and> Q c) xs)"
  by (induction xs) auto

lemma drop_add_takeWhile:
  "drop (p + length (takeWhile P (drop p b))) b = dropWhile P (drop p b)"
  by (simp add: dropWhile_eq_drop add.commute)

lemma at_NUL_drop: "at_NUL b i \<longleftrightarrow> cstr_at b i = []"
proof (cases "i < length b")
  case True
  then have "drop i b = b ! i # drop (Suc i) b" by (simp add: Cons_nth_drop_Suc)
  with True show ?thesis by (simp add: at_NUL_def cstr_at_def)
next
  case False
  then show ?thesis by (simp add: at_NUL_def cstr_at_def)
qed

lemma strtok_tokens:
  assumes "strtok b p d = (r, b', p')"
  shows "case r of
           None \<Rightarrow> spec_tokens d (cstr_at b p) = []
         | Some t \<Rightarrow> spec_tokens d (cstr_at b p) = cstr_at b' t # spec_tokens d (cstr_at b' p')"
proof -
  define Q where "Q = (\<lambda>c. c \<noteq> NUL \<and> c \<in> set d)"
  define R where "R = (\<lambda>c. c \<noteq> NUL \<and> c \<notin> set d)"
  define xs where "xs = drop p b"
  define ys where "ys = dropWhile Q xs"
  define zs where "zs = dropWhile R ys"
  define s where "s = p + strspn_at b p d"
  define e where "e = s + strcspn_at b s d"
  have ds: "drop s b = ys"
    unfolding s_def strspn_at_def ys_def xs_def Q_def by (rule drop_add_takeWhile)
  have de: "drop e b = zs"
    using drop_add_takeWhile [of s R b] unfolding e_def strcspn_at_def zs_def R_def ds .
  have skip: "cstr_at b p = takeWhile Q xs @ cstr_at b s"
    unfolding cstr_at_def ds xs_def [symmetric] ys_def Q_def
    by (rule takeWhile_conj_split [of NUL xs "\<lambda>c. c \<in> set d"])
  have tok: "cstr_at b s = takeWhile R ys @ cstr_at b e"
    unfolding cstr_at_def ds de zs_def R_def
    by (rule takeWhile_conj_split [of NUL ys "\<lambda>c. c \<notin> set d"])
  have Qd: "\<forall>c\<in>set (takeWhile Q xs). c \<in> set d"
    by (auto simp: Q_def dest: set_takeWhileD)
  have Rd: "\<forall>c\<in>set (takeWhile R ys). c \<notin> set d"
    by (auto simp: R_def dest: set_takeWhileD)
  show ?thesis
  proof (cases "at_NUL b s")
    case True
    then have "r = None" using assms by (simp add: strtok_def Let_def s_def)
    moreover have "cstr_at b p = takeWhile Q xs" using True skip by (simp add: at_NUL_drop)
    ultimately show ?thesis using Qd by (simp add: spec_tokens_delims)
  next
    case ns: False
    then have sl: "s < length b" by (simp add: at_NUL_def)
    have ys_ne: "ys \<noteq> []" using ds sl by auto
    have hd_ys: "hd ys = b ! s" using ds sl by (simp add: hd_drop_conv_nth [symmetric])
    have "\<not> Q (hd ys)" using ys_ne unfolding ys_def by (rule hd_dropWhile)
    moreover have "hd ys \<noteq> NUL" using ns hd_ys sl by (simp add: at_NUL_def)
    ultimately have "R (hd ys)" by (simp add: Q_def R_def)
    then have t_ne: "takeWhile R ys \<noteq> []" using ys_ne by (simp add: takeWhile_eq_Nil_iff)
    have R_nn: "\<forall>c\<in>set (takeWhile R ys). c \<noteq> NUL"
      by (auto simp: R_def dest: set_takeWhileD)
    show ?thesis
    proof (cases "at_NUL b e")
      case True
      then have res: "r = Some s" "b' = b" "p' = e"
        using assms ns by (auto simp add: strtok_def Let_def s_def e_def)
      have "cstr_at b p = takeWhile Q xs @ takeWhile R ys"
        using True skip tok by (simp add: at_NUL_drop)
      moreover have "cstr_at b s = takeWhile R ys" using True tok by (simp add: at_NUL_drop)
      moreover have "cstr_at b e = []" using True by (simp add: at_NUL_drop)
      ultimately show ?thesis
        using res Qd Rd t_ne by (simp add: spec_tokens_skip spec_tokens_last spec_tokens_Nil)
    next
      case ne: False
      then have res: "r = Some s" "b' = b[e := NUL]" "p' = e + 1"
        using assms ns by (auto simp add: strtok_def Let_def s_def e_def)
      from ne have el: "e < length b" and be: "b ! e \<noteq> NUL" by (simp_all add: at_NUL_def)
      have zs_eq: "zs = b ! e # drop (Suc e) b" using de el by (simp add: Cons_nth_drop_Suc)
      then have "zs \<noteq> []" by simp
      then have "\<not> R (hd zs)" unfolding zs_def by (rule hd_dropWhile)
      then have z_d: "b ! e \<in> set d" using zs_eq be by (simp add: R_def)
      have ce: "cstr_at b e = b ! e # cstr_at b (Suc e)"
        using zs_eq be de by (simp add: cstr_at_def)
      have se: "s \<le> e" by (simp add: e_def)
      have k: "e - s = length (takeWhile R ys)"
        by (simp add: e_def strcspn_at_def ds R_def)
      have "drop s (b[e := NUL]) = ys[e - s := NUL]" using se ds by (simp add: drop_update_swap)
      also have "ys = takeWhile R ys @ zs" by (simp add: zs_def)
      also have "(takeWhile R ys @ zs)[e - s := NUL] = takeWhile R ys @ NUL # drop (Suc e) b"
        using k zs_eq by (simp add: list_update_append)
      finally have tok': "cstr_at b' s = takeWhile R ys"
        using R_nn res by (simp add: cstr_at_def)
      have rest': "cstr_at b' p' = cstr_at b (Suc e)" using res by (simp add: cstr_at_def)
      have "cstr_at b p = takeWhile Q xs @ takeWhile R ys @ b ! e # cstr_at b (Suc e)"
        using skip tok ce by simp
      then show ?thesis
        using res Qd Rd t_ne z_d tok' rest' by (simp add: spec_tokens_skip spec_tokens_token)
    qed
  qed
qed


lemma strtok_terminated:
  assumes "strtok b p d = (Some t, b', p')"
  shows "terminated b' p' t"
proof -
  define s where "s = p + strspn_at b p d"
  define e where "e = s + strcspn_at b s d"
  from assms have ns: "\<not> at_NUL b s" and t: "t = s"
    by (auto simp: strtok_def Let_def s_def split: if_splits)
  show ?thesis
  proof (cases "at_NUL b e")
    case True
    then have "b' = b" "p' = e" using assms ns by (auto simp add: strtok_def Let_def s_def e_def)
    with True t show ?thesis unfolding terminated_def by (intro exI [of _ e]) (simp add: e_def)
  next
    case False
    then have "b' = b[e := NUL]" "p' = e + 1"
      using assms ns by (auto simp add: strtok_def Let_def s_def e_def)
    moreover from False have "e < length b" by (simp add: at_NUL_def)
    ultimately show ?thesis using t
      unfolding terminated_def by (intro exI [of _ e]) (simp add: e_def at_NUL_def)
  qed
qed

lemma takeWhile_update_after:
  "j < k \<Longrightarrow> j < length xs \<Longrightarrow> \<not> P (xs ! j) \<Longrightarrow> takeWhile P (xs[k := x]) = takeWhile P xs"
proof -
  assume a: "j < k" "j < length xs" "\<not> P (xs ! j)"
  have xs: "xs = take (Suc j) xs @ drop (Suc j) xs" by simp
  have mem: "xs ! j \<in> set (take (Suc j) xs)" using a by (simp add: take_Suc_conv_app_nth)
  have "xs[k := x] = take (Suc j) xs @ (drop (Suc j) xs)[k - Suc j := x]"
    using a by (subst xs) (simp add: list_update_append del: append_take_drop_id)
  then have "takeWhile P (xs[k := x]) = takeWhile P (take (Suc j) xs)"
    using mem a(3) by (simp add: takeWhile_append1)
  moreover have "takeWhile P xs = takeWhile P (take (Suc j) xs)"
    using mem a(3) by (subst xs) (simp add: takeWhile_append1 del: append_take_drop_id)
  ultimately show ?thesis by simp
qed

lemma cstr_at_update_after:
  assumes "t \<le> e" "e < w" "e < length b" "b ! e = NUL"
  shows "cstr_at (b[w := x]) t = cstr_at b t"
proof -
  have "drop t (b[w := x]) = (drop t b)[w - t := x]" using assms by (simp add: drop_update_swap)
  moreover have "takeWhile (\<lambda>c. c \<noteq> NUL) ((drop t b)[w - t := x]) = takeWhile (\<lambda>c. c \<noteq> NUL) (drop t b)"
    using assms by (intro takeWhile_update_after [of "e - t"]) auto
  ultimately show ?thesis by (simp add: cstr_at_def)
qed

lemma strtok_preserves:
  assumes "strtok b p d = (r, b', p')" and "terminated b p t"
  shows "cstr_at b' t = cstr_at b t \<and> terminated b' p' t"
proof -
  define s where "s = p + strspn_at b p d"
  define w where "w = s + strcspn_at b s d"
  from assms(2) obtain e where e: "t \<le> e" "e \<le> p" "at_NUL b e" by (auto simp: terminated_def)
  have pp: "p \<le> p'" using strtok_save_ge [OF assms(1)] by simp
  show ?thesis
  proof (cases "b' = b")
    case True
    with e pp show ?thesis by (auto simp: terminated_def)
  next
    case False
    then have b': "b' = b[w := NUL]" and nw: "\<not> at_NUL b w" and ns: "\<not> at_NUL b s"
      using assms(1) by (auto simp add: strtok_def Let_def s_def w_def split: if_splits)
    have "b ! s \<notin> set d" using ns strspn_stop [of b p d] by (simp add: s_def)
    then have "0 < strcspn_at b s d" using ns by (rule strcspn_pos [rotated])
    then have "p < w" by (simp add: w_def s_def)
    with e have ew: "e < w" by simp
    from nw have "w < length b" by (simp add: at_NUL_def)
    with ew e have el: "e < length b" and be: "b ! e = NUL" by (auto simp: at_NUL_def)
    have "cstr_at b' t = cstr_at b t" unfolding b' using e(1) ew el be by (rule cstr_at_update_after)
    moreover have "at_NUL b' e" using b' ew el be by (simp add: at_NUL_def)
    ultimately show ?thesis using e pp by (auto simp: terminated_def)
  qed
qed


lemma read_args_append:
  "None \<notin> set ts \<Longrightarrow> read_args b (ts @ us) = read_args b ts @ read_args b us"
  by (induction b ts rule: read_args.induct) auto

lemma read_args_cong:
  "(\<And>t. Some t \<in> set ts \<Longrightarrow> cstr_at b' t = cstr_at b t) \<Longrightarrow> read_args b' ts = read_args b ts"
  by (induction b ts rule: read_args.induct) auto

subsection \<open>The loop\<close>

lemma store_slot_fields [simp]:
  "line (store_slot os st v) = line st"
  "save_ptr (store_slot os st v) = save_ptr st"
  "token (store_slot os st v) = token st"
  "tokens (store_slot os st v) = tokens st @ [v]"
  "pos (store_slot os st v) = pos st"
  "bufsize (store_slot os st v) = bufsize st"
  "alloc_bytes (store_slot os st v) = alloc_bytes st"
  by (simp_all add: store_slot_def)

lemma split_loop_None: "token st = None \<Longrightarrow> split_loop os sh st = Ret st sh"
  by (subst split_loop.simps) simp

lemma split_loop_Some:
  "token st = Some t \<Longrightarrow>
   split_loop os sh st =
     (if pos st + 1 = bufsize st then
        (if \<not> can_alloc os (bufsize st * 2)
         then Halt (Exited EXIT_FAILURE) (fprintf_stderr sh ''ush: allocation error\<newline>'')
         else split_loop os sh (next_token (grow (push_token os st t))))
      else split_loop os sh (next_token (push_token os st t)))"
  by (subst split_loop.simps) (simp add: Let_def push_token_def grow_def)

lemma push_token_fields [simp]:
  "line (push_token os st t) = line st"
  "save_ptr (push_token os st t) = save_ptr st"
  "tokens (push_token os st t) = tokens st @ [Some t]"
  "pos (push_token os st t) = pos st + 1"
  "bufsize (push_token os st t) = bufsize st"
  "alloc_bytes (push_token os st t) = alloc_bytes st"
  by (simp_all add: push_token_def)

lemma grow_fields [simp]:
  "line (grow st) = line st"
  "save_ptr (grow st) = save_ptr st"
  "tokens (grow st) = tokens st"
  "pos (grow st) = pos st"
  "bufsize (grow st) = bufsize st * 2"
  "alloc_bytes (grow st) = bufsize st * 2"
  "oob_stores (grow st) = oob_stores st"
  by (simp_all add: grow_def)

lemma split_loop_step:
  assumes "token st = Some t" and "split_loop os sh st = Ret st' sh'"
  shows "\<exists>X. line X = line st \<and> save_ptr X = save_ptr st \<and> tokens X = tokens st @ [Some t]
           \<and> split_loop os sh (next_token X) = Ret st' sh'"
proof (cases "pos st + 1 = bufsize st")
  case True
  with assms have "split_loop os sh (next_token (grow (push_token os st t))) = Ret st' sh'"
    by (simp add: split_loop_Some split: if_splits)
  then show ?thesis by (intro exI [of _ "grow (push_token os st t)"]) simp
next
  case False
  with assms have "split_loop os sh (next_token (push_token os st t)) = Ret st' sh'"
    by (simp add: split_loop_Some)
  then show ?thesis by (intro exI [of _ "push_token os st t"]) simp
qed

lemma split_loop_tokens:
  assumes "split_loop os sh st = Ret st' sh'"
    and "None \<notin> set (tokens st)"
    and "\<And>t. Some t \<in> set (tokens st) \<or> token st = Some t \<Longrightarrow> terminated (line st) (save_ptr st) t"
  shows "None \<notin> set (tokens st') \<and> sh' = sh
         \<and> read_args (line st') (tokens st') = read_args (line st) (tokens st) @ pending st"
  using assms
proof (induction "length (line st) - save_ptr st + (case token st of None \<Rightarrow> 0 | Some _ \<Rightarrow> 1)"
         arbitrary: st rule: less_induct)
  case less
  show ?case
  proof (cases "token st")
    case None
    then have "split_loop os sh st = Ret st sh" by (rule split_loop_None)
    with less.prems None show ?thesis by (simp add: pending_def)
  next
    case (Some t)
    from split_loop_step [OF Some less.prems(1)] obtain X where
      X: "line X = line st" "save_ptr X = save_ptr st" "tokens X = tokens st @ [Some t]"
         "split_loop os sh (next_token X) = Ret st' sh'" by blast
    obtain r b' p' where tk: "strtok (line st) (save_ptr st) USH_TOK_DELIM = (r, b', p')"
      by (cases "strtok (line st) (save_ptr st) USH_TOK_DELIM") auto
    define stn where "stn = next_token X"
    have stn: "line stn = b'" "save_ptr stn = p'" "token stn = r" "tokens stn = tokens st @ [Some t]"
      using tk X by (simp_all add: stn_def next_token_def)
    have m: "length (line stn) - save_ptr stn + (case token stn of None \<Rightarrow> 0 | Some _ \<Rightarrow> 1)
               < length (line st) - save_ptr st + (case token st of None \<Rightarrow> 0 | Some _ \<Rightarrow> 1)"
      using next_token_measure [of X] X Some by (simp add: stn_def)
    have old: "\<And>u. Some u \<in> set (tokens st) \<or> u = t \<Longrightarrow> cstr_at b' u = cstr_at (line st) u \<and> terminated b' p' u"
      using strtok_preserves [OF tk] less.prems(3) Some by auto
    have new: "\<And>u. r = Some u \<Longrightarrow> terminated b' p' u"
      using strtok_terminated tk by auto
    have "None \<notin> set (tokens st') \<and> sh' = sh
          \<and> read_args (line st') (tokens st') = read_args (line stn) (tokens stn) @ pending stn"
    proof (rule less.hyps [OF m])
      show "split_loop os sh stn = Ret st' sh'" using X by (simp add: stn_def)
      show "None \<notin> set (tokens stn)" using less.prems(2) stn by simp
      show "\<And>u. Some u \<in> set (tokens stn) \<or> token stn = Some u \<Longrightarrow> terminated (line stn) (save_ptr stn) u"
        using old new stn by auto
    qed
    moreover have "read_args b' (tokens st @ [Some t]) = read_args (line st) (tokens st) @ [cstr_at (line st) t]"
    proof -
      have "read_args b' (tokens st @ [Some t]) = read_args b' (tokens st) @ [cstr_at b' t]"
        using less.prems(2) by (simp add: read_args_append)
      moreover have "read_args b' (tokens st) = read_args (line st) (tokens st)"
        using old by (intro read_args_cong) simp
      ultimately show ?thesis using old by simp
    qed
    moreover have "pending stn = spec_tokens USH_TOK_DELIM (cstr_at (line st) (save_ptr st))"
      using strtok_tokens [OF tk] stn by (simp add: pending_def split: option.splits)
    ultimately show ?thesis using stn Some by (simp add: pending_def)
  qed
qed

lemma read_args_terminator:
  "None \<notin> set ts \<Longrightarrow> read_args b (ts @ [None]) = read_args b ts"
  by (simp add: read_args_append)

lemma ush_split_line_result:
  assumes "ush_split_line os l sh = Ret st sh'"
  shows "\<exists>st1. st = store_slot os st1 None \<and> None \<notin> set (tokens st1) \<and> sh' = sh
           \<and> read_args (line st1) (tokens st1) = spec_tokens USH_TOK_DELIM (cstr_at l 0)"
proof -
  obtain r b p where tk: "strtok l 0 USH_TOK_DELIM = (r, b, p)"
    by (cases "strtok l 0 USH_TOK_DELIM") auto
  define st0 where "st0 = \<lparr>line = b, save_ptr = p, token = r, tokens = [], pos = 0,
     bufsize = USH_TOK_BUFSIZE, alloc_bytes = sizeof_char_ptr os * USH_TOK_BUFSIZE,
     oob_stores = []\<rparr>"
  from assms tk obtain st1 where lp: "split_loop os sh st0 = Ret st1 sh'"
    and st: "st = store_slot os st1 None"
    by (auto simp: ush_split_line_def st0_def split: if_splits result.splits)
  have "None \<notin> set (tokens st1) \<and> sh' = sh
        \<and> read_args (line st1) (tokens st1) = read_args (line st0) (tokens st0) @ pending st0"
    using lp
  proof (rule split_loop_tokens)
    show "None \<notin> set (tokens st0)" by (simp add: st0_def)
    show "\<And>t. Some t \<in> set (tokens st0) \<or> token st0 = Some t
            \<Longrightarrow> terminated (line st0) (save_ptr st0) t"
      using strtok_terminated tk by (auto simp: st0_def)
  qed
  moreover have "pending st0 = spec_tokens USH_TOK_DELIM (cstr_at l 0)"
    using strtok_tokens [OF tk] by (simp add: pending_def st0_def split: option.splits)
  ultimately show ?thesis using st by (intro exI [of _ st1]) (simp add: st0_def)
qed

lemma ush_split_line_argv:
  assumes "ush_split_line os l sh = Ret st sh'"
  shows "argv st = spec_tokens USH_TOK_DELIM (cstr_at l 0)"
  using ush_split_line_result [OF assms] by (auto simp: argv_def read_args_terminator)

lemma read_args_offsets:
  "None \<notin> set ts \<Longrightarrow> \<exists>offs. ts = map Some offs \<and> read_args b ts = map (cstr_at b) offs"
proof (induction ts)
  case Nil
  then show ?case by simp
next
  case (Cons a ts)
  then obtain offs where o: "ts = map Some offs" "read_args b ts = map (cstr_at b) offs" by auto
  from Cons.prems obtain t where "a = Some t" by (cases a) auto
  with o show ?case by (intro exI [of _ "t # offs"]) simp
qed



lemma ush_split_line_marker:
  assumes "ush_split_line os l sh = Ret st sh'"
  shows "\<exists>offs. tokens st = map Some offs @ [None] \<and> argv st = map (cstr_at (line st)) offs"
proof -
  from ush_split_line_result [OF assms] obtain st1 where
    st1: "st = store_slot os st1 None" "None \<notin> set (tokens st1)" by blast
  from read_args_offsets [OF st1(2), of "line st1"] obtain offs where
    "tokens st1 = map Some offs" "read_args (line st1) (tokens st1) = map (cstr_at (line st1)) offs"
    by blast
  with st1 show ?thesis
    by (intro exI [of _ offs]) (simp add: argv_def read_args_terminator)
qed

lemma cstr_at_c_string: "NUL \<notin> set s \<Longrightarrow> cstr_at (c_string s) 0 = s"
  by (auto simp add: cstr_at_def c_string_def takeWhile_tail)

lemma spec_tokens_sound:
  "t \<in> set (spec_tokens ds s) \<Longrightarrow> t \<noteq> [] \<and> set t \<inter> set ds = {}"
proof -
  have "\<forall>f\<in>set (split_fields ds s). set f \<inter> set ds = {}"
  proof (induction s)
    case Nil
    then show ?case by simp
  next
    case (Cons c cs)
    obtain f fs where "split_fields ds cs = f # fs"
      using split_fields_nonempty [of ds cs] by (cases "split_fields ds cs") auto
    with Cons show ?case by auto
  qed
  then show "t \<in> set (spec_tokens ds s) \<Longrightarrow> t \<noteq> [] \<and> set t \<inter> set ds = {}"
    by (auto simp: spec_tokens_def)
qed

lemma spec_tokens_concat:
  "concat (spec_tokens ds s) = filter (\<lambda>c. c \<notin> set ds) s"
proof -
  have "concat (split_fields ds s) = filter (\<lambda>c. c \<notin> set ds) s"
  proof (induction s)
    case Nil
    then show ?case by simp
  next
    case (Cons c cs)
    obtain f fs where "split_fields ds cs = f # fs"
      using split_fields_nonempty [of ds cs] by (cases "split_fields ds cs") auto
    with Cons show ?case by auto
  qed
  moreover have "concat (filter (\<lambda>f. f \<noteq> []) xs) = concat xs" for xs :: "string list"
    by (induction xs) auto
  ultimately show ?thesis by (simp add: spec_tokens_def)
qed

subsection \<open>Where the stores land\<close>

text \<open>
  For a line of fewer than 64 tokens every store is inside the first block. From 64
  tokens on, and with pointers of at least two bytes, the store at slot 64 is outside the
  block that \<^verbatim>\<open>realloc\<close> returned.
\<close>

lemma next_token_fields [simp]:
  "tokens (next_token X) = tokens X"
  "pos (next_token X) = pos X"
  "bufsize (next_token X) = bufsize X"
  "alloc_bytes (next_token X) = alloc_bytes X"
  "oob_stores (next_token X) = oob_stores X"
  by (simp_all add: next_token_def split: prod.splits)

lemma push_token_oob:
  "oob_stores (push_token os st t) =
     (if (pos st + 1) * sizeof_char_ptr os \<le> alloc_bytes st then oob_stores st
      else oob_stores st @ [pos st])"
  by (simp add: push_token_def store_slot_def)

lemma pending_next_token:
  assumes "token st = Some t" "line X = line st" "save_ptr X = save_ptr st"
  shows "length (pending st) = Suc (length (pending (next_token X)))"
proof -
  obtain r b' p' where tk: "strtok (line st) (save_ptr st) USH_TOK_DELIM = (r, b', p')"
    by (cases "strtok (line st) (save_ptr st) USH_TOK_DELIM") auto
  have nt: "token (next_token X) = r" "line (next_token X) = b'" "save_ptr (next_token X) = p'"
    using tk assms(2,3) by (simp_all add: next_token_def)
  have "pending (next_token X) = spec_tokens USH_TOK_DELIM (cstr_at (line st) (save_ptr st))"
  proof (cases r)
    case None
    with strtok_tokens [OF tk] nt show ?thesis by (simp add: pending_def)
  next
    case (Some u)
    with strtok_tokens [OF tk] nt show ?thesis by (simp add: pending_def)
  qed
  with assms(1) show ?thesis by (simp add: pending_def)
qed

lemma split_loop_cases [consumes 1, case_names stop grow push]:
  assumes "split_loop os sh st = Ret st' sh'"
    and "token st = None \<Longrightarrow> st' = st \<Longrightarrow> P"
    and "\<And>t. token st = Some t \<Longrightarrow> pos st + 1 = bufsize st \<Longrightarrow>
           split_loop os sh (next_token (grow (push_token os st t))) = Ret st' sh' \<Longrightarrow> P"
    and "\<And>t. token st = Some t \<Longrightarrow> pos st + 1 \<noteq> bufsize st \<Longrightarrow>
           split_loop os sh (next_token (push_token os st t)) = Ret st' sh' \<Longrightarrow> P"
  shows P
proof (cases "token st")
  case None
  with assms(1) have "st' = st" by (simp add: split_loop_None)
  with None show ?thesis by (rule assms(2))
next
  case (Some t)
  show ?thesis
  proof (cases "pos st + 1 = bufsize st")
    case True
    with assms(1) have "split_loop os sh (next_token (grow (push_token os st t))) = Ret st' sh'"
      by (simp add: split_loop_Some [OF Some] split: if_splits)
    with Some True show ?thesis by (rule assms(3))
  next
    case False
    with assms(1) have "split_loop os sh (next_token (push_token os st t)) = Ret st' sh'"
      by (simp add: split_loop_Some [OF Some])
    with Some False show ?thesis by (rule assms(4))
  qed
qed

lemma split_loop_measure_induct [consumes 0, case_names step]:
  fixes P :: "split_state \<Rightarrow> bool"
  assumes "\<And>st. (\<And>X. line X = line st \<Longrightarrow> save_ptr X = save_ptr st \<Longrightarrow> token st \<noteq> None
              \<Longrightarrow> P (next_token X)) \<Longrightarrow> P st"
  shows "P st"
proof (induction "length (line st) - save_ptr st + (case token st of None \<Rightarrow> 0 | Some _ \<Rightarrow> 1)"
         arbitrary: st rule: less_induct)
  case less
  show ?case
  proof (rule assms)
    fix X :: split_state
    assume a: "line X = line st" "save_ptr X = save_ptr st" "token st \<noteq> None"
    then have "length (line (next_token X)) - save_ptr (next_token X)
            + (case token (next_token X) of None \<Rightarrow> 0 | Some _ \<Rightarrow> 1)
          < length (line st) - save_ptr st + (case token st of None \<Rightarrow> 0 | Some _ \<Rightarrow> 1)"
      using next_token_measure [of X] by (cases "token st") auto
    then show "P (next_token X)" by (rule less.hyps)
  qed
qed

lemma split_loop_in_bounds:
  "split_loop os sh st = Ret st' sh' \<Longrightarrow> pos st + length (pending st) < bufsize st
   \<Longrightarrow> oob_stores st = [] \<Longrightarrow> bufsize st * sizeof_char_ptr os \<le> alloc_bytes st
   \<Longrightarrow> oob_stores st' = [] \<and> pos st' = pos st + length (pending st)
       \<and> bufsize st' = bufsize st \<and> alloc_bytes st' = alloc_bytes st"
proof (induction st rule: split_loop_measure_induct)
  case (step st)
  from step.prems(1) show ?case
  proof (cases rule: split_loop_cases)
    case stop
    then show ?thesis using step.prems by (simp add: pending_def)
  next
    case (grow t)
    with step.prems(2) show ?thesis by (simp add: pending_def)
  next
    case (push t)
    let ?X = "push_token os st t"
    have len: "length (pending st) = Suc (length (pending (next_token ?X)))"
      using push(1) by (intro pending_next_token) simp_all
    have "pos st + 1 \<le> bufsize st" using step.prems(2) len by simp
    then have "(pos st + 1) * sizeof_char_ptr os \<le> bufsize st * sizeof_char_ptr os"
      by (rule mult_le_mono1)
    then have oob: "oob_stores ?X = []"
      using step.prems(3,4) by (simp add: push_token_oob)
    have "oob_stores st' = [] \<and> pos st' = pos (next_token ?X) + length (pending (next_token ?X))
       \<and> bufsize st' = bufsize (next_token ?X) \<and> alloc_bytes st' = alloc_bytes (next_token ?X)"
      using push step.prems len oob by (intro step.IH [of ?X]) simp_all
    then show ?thesis using len by simp
  qed
qed

lemma split_loop_oob_mono:
  "split_loop os sh st = Ret st' sh' \<Longrightarrow> set (oob_stores st) \<subseteq> set (oob_stores st')"
proof (induction st rule: split_loop_measure_induct)
  case (step st)
  from step.prems(1) show ?case
  proof (cases rule: split_loop_cases)
    case stop
    then show ?thesis by simp
  next
    case (grow t)
    from step.IH [of "grow (push_token os st t)"] grow
    have "set (oob_stores (next_token (grow (push_token os st t)))) \<subseteq> set (oob_stores st')"
      by simp
    then show ?thesis by (auto simp: push_token_oob split: if_splits)
  next
    case (push t)
    from step.IH [of "push_token os st t"] push
    have "set (oob_stores (next_token (push_token os st t))) \<subseteq> set (oob_stores st')"
      by simp
    then show ?thesis by (auto simp: push_token_oob split: if_splits)
  qed
qed

lemma store_slot_oob:
  "oob_stores (store_slot os st v) =
     (if (pos st + 1) * sizeof_char_ptr os \<le> alloc_bytes st then oob_stores st
      else oob_stores st @ [pos st])"
  by (simp add: store_slot_def)

lemma next_store_oob:
  assumes "split_loop os sh st = Ret st' sh'"
    and "\<not> (pos st + 1) * sizeof_char_ptr os \<le> alloc_bytes st"
  shows "pos st \<in> set (oob_stores (store_slot os st' None))"
  using assms(1)
proof (cases rule: split_loop_cases)
  case stop
  with assms(2) show ?thesis by (simp add: store_slot_oob)
next
  case (grow t)
  from split_loop_oob_mono [OF grow(3)] assms(2) show ?thesis
    by (auto simp: push_token_oob store_slot_oob)
next
  case (push t)
  from split_loop_oob_mono [OF push(3)] assms(2) show ?thesis
    by (auto simp: push_token_oob store_slot_oob)
qed

lemma split_loop_overflows:
  "split_loop os sh st = Ret st' sh' \<Longrightarrow> pos st < bufsize st
   \<Longrightarrow> bufsize st \<le> pos st + length (pending st) \<Longrightarrow> 2 \<le> sizeof_char_ptr os
   \<Longrightarrow> bufsize st \<in> set (oob_stores (store_slot os st' None))"
proof (induction st rule: split_loop_measure_induct)
  case (step st)
  from step.prems(1) show ?case
  proof (cases rule: split_loop_cases)
    case stop
    with step.prems show ?thesis by (simp add: pending_def)
  next
    case (grow t)
    let ?G = "next_token (grow (push_token os st t))"
    have "(bufsize st + 1) * 2 \<le> (bufsize st + 1) * sizeof_char_ptr os"
      using step.prems(4) by (rule mult_le_mono2)
    then have "\<not> (pos ?G + 1) * sizeof_char_ptr os \<le> alloc_bytes ?G"
      using grow(2) by simp
    from next_store_oob [OF grow(3) this] grow(2) show ?thesis by simp
  next
    case (push t)
    let ?X = "push_token os st t"
    have len: "length (pending st) = Suc (length (pending (next_token ?X)))"
      using push(1) by (intro pending_next_token) simp_all
    have "bufsize (next_token ?X) \<in> set (oob_stores (store_slot os st' None))"
      using push step.prems len by (intro step.IH [of ?X]) simp_all
    then show ?thesis by simp
  qed
qed

lemma ush_split_line_bounds:
  assumes "ush_split_line os l sh = Ret st sh'"
  shows "(length (argv st) < 64 \<longrightarrow> oob_stores st = [])
         \<and> (64 \<le> length (argv st) \<and> 2 \<le> sizeof_char_ptr os \<longrightarrow> 64 \<in> set (oob_stores st))"
proof -
  obtain r b p where tk: "strtok l 0 USH_TOK_DELIM = (r, b, p)"
    by (cases "strtok l 0 USH_TOK_DELIM") auto
  define st0 where "st0 = \<lparr>line = b, save_ptr = p, token = r, tokens = [], pos = 0,
     bufsize = USH_TOK_BUFSIZE, alloc_bytes = sizeof_char_ptr os * USH_TOK_BUFSIZE,
     oob_stores = []\<rparr>"
  from assms tk obtain st1 where lp: "split_loop os sh st0 = Ret st1 sh'"
    and st: "st = store_slot os st1 None"
    by (auto simp: ush_split_line_def st0_def split: if_splits result.splits)
  have pend: "pending st0 = spec_tokens USH_TOK_DELIM (cstr_at l 0)"
    using strtok_tokens [OF tk] by (simp add: pending_def st0_def split: option.splits)
  have n: "length (argv st) = length (pending st0)"
    using ush_split_line_argv [OF assms] pend by simp
  have f: "pos st0 = 0" "bufsize st0 = 64" "alloc_bytes st0 = sizeof_char_ptr os * 64"
    "oob_stores st0 = []"
    by (simp_all add: st0_def USH_TOK_BUFSIZE_def)
  have small: "oob_stores st = []" if "length (argv st) < 64"
  proof -
    have a: "pos st0 + length (pending st0) < bufsize st0" using that n f by simp
    have b: "bufsize st0 * sizeof_char_ptr os \<le> alloc_bytes st0"
      using f by (simp add: mult.commute)
    have "oob_stores st1 = [] \<and> pos st1 = pos st0 + length (pending st0)
       \<and> bufsize st1 = bufsize st0 \<and> alloc_bytes st1 = alloc_bytes st0"
      by (rule split_loop_in_bounds [OF lp a f(4) b])
    moreover have "length (pending st0) + 1 \<le> 64" using that n by simp
    then have "(length (pending st0) + 1) * sizeof_char_ptr os \<le> 64 * sizeof_char_ptr os"
      by (rule mult_le_mono1)
    ultimately show ?thesis using st f by (simp add: store_slot_oob mult.commute)
  qed
  have large: "64 \<in> set (oob_stores st)" if "64 \<le> length (argv st)" "2 \<le> sizeof_char_ptr os"
  proof -
    have "pos st0 < bufsize st0" "bufsize st0 \<le> pos st0 + length (pending st0)"
      using that n f by simp_all
    then have "bufsize st0 \<in> set (oob_stores (store_slot os st1 None))"
      using that(2) by (rule split_loop_overflows [OF lp])
    with st f show ?thesis by simp
  qed
  from small large show ?thesis by blast
qed

lemma returned_Some: "returned r = Some x \<Longrightarrow> \<exists>sh. r = Ret x sh"
  by (cases r) simp_all

text \<open>
  What the function stores. Whenever \<^verbatim>\<open>ush_split_line\<close> returns, the values it has stored
  at \<^verbatim>\<open>tokens[0]\<close>, \<^verbatim>\<open>tokens[1]\<close>, ..., read up to the first \<^verbatim>\<open>NULL\<close>, point to the tokens of the
  line as the specification defines them (the non-empty pieces between delimiters, in
  order), one \<^verbatim>\<open>NULL\<close> is stored after them, and nothing is printed. This is about the
  stores as the function makes them, wherever they land; the block that the function
  returns holds them only as far as it reaches.
\<close>

lemma ush_split_line_stores:
  assumes "ush_split_line os b sh = Ret st sh'"
  shows "sh' = sh
     \<and> argv st = spec_tokens USH_TOK_DELIM (cstr_at b 0)
     \<and> (\<exists>offs. tokens st = map Some offs @ [None] \<and> argv st = map (cstr_at (line st)) offs)"
  using ush_split_line_result [OF assms] ush_split_line_argv [OF assms]
    ush_split_line_marker [OF assms]
  by blast

text \<open>
  For a line of fewer than 64 tokens every store is inside the first block, which is
  never reallocated: the block holds all that was stored, and the array read from the
  block is the list of the tokens. Both examples of the specification are of this kind.
\<close>

lemma split_line_block_size:
  assumes "ush_split_line os l sh = Ret st sh'" and "length (argv st) < 64"
  shows "alloc_bytes st = sizeof_char_ptr os * 64 \<and> length (tokens st) \<le> 64"
proof -
  obtain r b p where tk: "strtok l 0 USH_TOK_DELIM = (r, b, p)"
    by (cases "strtok l 0 USH_TOK_DELIM") auto
  define st0 where "st0 = \<lparr>line = b, save_ptr = p, token = r, tokens = [], pos = 0,
     bufsize = USH_TOK_BUFSIZE, alloc_bytes = sizeof_char_ptr os * USH_TOK_BUFSIZE,
     oob_stores = []\<rparr>"
  from assms tk obtain st1 where lp: "split_loop os sh st0 = Ret st1 sh'"
    and st: "st = store_slot os st1 None"
    by (auto simp: ush_split_line_def st0_def split: if_splits result.splits)
  have pend: "pending st0 = spec_tokens USH_TOK_DELIM (cstr_at l 0)"
    using strtok_tokens [OF tk] by (simp add: pending_def st0_def split: option.splits)
  have n: "length (argv st) = length (pending st0)"
    using ush_split_line_argv [OF assms(1)] pend by simp
  have f: "pos st0 = 0" "bufsize st0 = 64" "alloc_bytes st0 = sizeof_char_ptr os * 64"
    "oob_stores st0 = []"
    by (simp_all add: st0_def USH_TOK_BUFSIZE_def)
  have a: "pos st0 + length (pending st0) < bufsize st0" using assms(2) n f by simp
  have b: "bufsize st0 * sizeof_char_ptr os \<le> alloc_bytes st0"
    using f by (simp add: mult.commute)
  have "oob_stores st1 = [] \<and> pos st1 = pos st0 + length (pending st0)
     \<and> bufsize st1 = bufsize st0 \<and> alloc_bytes st1 = alloc_bytes st0"
    by (rule split_loop_in_bounds [OF lp a f(4) b])
  then have "alloc_bytes st = sizeof_char_ptr os * 64" using st f by (simp add: store_slot_def)
  moreover from ush_split_line_marker [OF assms(1)] obtain offs where
    "tokens st = map Some offs @ [None]" "argv st = map (cstr_at (line st)) offs" by blast
  then have "length (tokens st) = length (argv st) + 1" by simp
  ultimately show ?thesis using assms(2) by simp
qed

lemma ush_split_line_below_64:
  assumes "ush_split_line os l sh = Ret st sh'"
    and "length (spec_tokens USH_TOK_DELIM (cstr_at l 0)) < 64" and "0 < sizeof_char_ptr os"
  shows "oob_stores st = [] \<and> held_slots os st = tokens st
         \<and> read_args (line st) (held_slots os st) = spec_tokens USH_TOK_DELIM (cstr_at l 0)"
proof -
  have a: "argv st = spec_tokens USH_TOK_DELIM (cstr_at l 0)"
    by (rule ush_split_line_argv [OF assms(1)])
  with assms(2) have n: "length (argv st) < 64" by simp
  from split_line_block_size [OF assms(1) n] assms(3)
  have "held_slots os st = tokens st" by (simp add: held_slots_def)
  moreover from ush_split_line_bounds [OF assms(1)] n have "oob_stores st = []" by simp
  ultimately show ?thesis using a by (simp add: argv_def)
qed

lemma ush_split_line_examples:
  "map_option (\<lambda>st. (read_args (line st) (held_slots lp64_os st), oob_stores st))
     (returned (ush_split_line lp64_os (c_string (''echo  a b'' @ [CHR 0x09] @ ''c'')) blank_shell))
   = Some ([''echo'', ''a'', ''b'', ''c''], [])
   \<and> map_option (\<lambda>st. (held_slots lp64_os st, oob_stores st))
     (returned (ush_split_line lp64_os (c_string '' ()  '') blank_shell))
   = Some ([None], [])"
  by code_simp

text \<open>
  From 64 tokens on this is no longer so. A block that has room for fewer slots than
  were stored holds no end marker, because the one \<^verbatim>\<open>NULL\<close> is the last value stored.
\<close>

lemma held_slots_no_marker:
  assumes "ush_split_line os l sh = Ret st sh'"
    and "length (held_slots os st) < length (tokens st)"
  shows "None \<notin> set (held_slots os st)"
proof -
  from ush_split_line_marker [OF assms(1)] obtain offs where
    t: "tokens st = map Some offs @ [None]" by blast
  from assms(2) have "alloc_bytes st div sizeof_char_ptr os < length (tokens st)"
    by (simp add: held_slots_def)
  with t have "held_slots os st = map Some (take (alloc_bytes st div sizeof_char_ptr os) offs)"
    by (simp add: held_slots_def take_map)
  then show ?thesis by auto
qed

text \<open>
  Claim C5 fails on the code, by the defect of claim C6. A line of 64 tokens makes
  \<open>pos\<close> reach \<open>bufsize\<close>, and \<^verbatim>\<open>realloc(tokens, bufsize)\<close> then asks for 128 bytes where
  128 slots are meant. With pointers of 8 bytes the function stores 65 values, the 64
  tokens and the \<^verbatim>\<open>NULL\<close>, but the block it returns has 128 bytes: it holds the first 16
  slots and no end marker. The array that the caller gets is therefore not the list of
  the 64 tokens followed by an end marker: reading it up to the end marker leaves the
  block after the sixteenth token.
\<close>

theorem ush_split_line_loses_tokens:
  "map_option (\<lambda>st. (length (tokens st), alloc_bytes st, length (held_slots lp64_os st),
                      None \<in> set (held_slots lp64_os st)))
     (returned (ush_split_line lp64_os (c_string (concat (replicate 64 ''x ''))) blank_shell))
   = Some (65, 128, 16, False)"
proof -
  let ?r = "ush_split_line lp64_os (c_string (concat (replicate 64 ''x ''))) blank_shell"
  have e: "map_option (\<lambda>st. (length (tokens st), alloc_bytes st, length (held_slots lp64_os st)))
             (returned ?r) = Some (65, 128, 16)"
    by code_simp
  then obtain st where st: "returned ?r = Some st" by blast
  with e have n: "length (tokens st) = 65" "alloc_bytes st = 128"
    "length (held_slots lp64_os st) = 16" by simp_all
  from returned_Some [OF st] obtain sh' where "?r = Ret st sh'" ..
  then have "None \<notin> set (held_slots lp64_os st)"
    by (rule held_slots_no_marker) (simp add: n)
  with st n show ?thesis by simp
qed

text \<open>
  Claim C6 fails on the code. The first block has room for 64 pointers, but the source
  grows it with \<^verbatim>\<open>realloc(tokens, bufsize)\<close>: \<open>bufsize\<close> counts slots and \<^verbatim>\<open>realloc\<close> takes
  bytes. For a line of 64 tokens and pointers of 8 bytes, the block has 128 bytes after
  the call, and the store of the final \<^verbatim>\<open>NULL\<close> at slot 64 (bytes 512 to 519) is outside
  it.
\<close>

theorem ush_split_line_realloc_bytes:
  "map_option (\<lambda>st. (length (argv st), bufsize st, alloc_bytes st, oob_stores st))
     (returned (ush_split_line lp64_os (c_string (concat (replicate 64 ''a ''))) blank_shell))
   = Some (64, 128, 128, [64])
   \<and> sizeof_char_ptr lp64_os = 8"
  by code_simp

section \<open>The history buffer: what is listed\<close>

lemma printf_printf: "printf (printf sh a) b = printf sh (a @ b)"
  by (simp add: printf_def)

lemma printf_Nil: "printf sh [] = sh"
  by (simp add: printf_def)

lemma printf_fields [simp]:
  "history_str (printf sh a) = history_str sh"
  "history_pos (printf sh a) = history_pos sh"
  "stdout (printf sh a) = stdout sh @ a"
  "stderr (printf sh a) = stderr sh"
  "cwd (printf sh a) = cwd sh"
  by (simp_all add: printf_def)

lemma slot_at_printf [simp]: "slot_at (printf sh a) i = slot_at sh i"
  by (simp add: slot_at_def)

lemma history_loop_unfold:
  "history_loop sh i n =
     (if (i + 1) mod 20 \<noteq> history_pos sh \<and> history_pos sh < 20
      then history_loop (printf sh (cell_text (slot_at sh i) n)) ((i + 1) mod 20)
             (n + cell_count (slot_at sh i))
      else printf sh (cell_text (slot_at sh i) n))"
  by (subst history_loop.simps)
     (simp add: Let_def cell_text_def cell_count_def printf_Nil USH_MAX_HISTORY_COUNT_def
           split: option.splits)

lemma ring_distance_step:
  "p < 20 \<Longrightarrow> (i + 1) mod 20 \<noteq> p \<Longrightarrow> ring_distance p ((i + 1) mod 20) < ring_distance p i"
  by (auto simp: ring_distance_def mod_Suc split: if_splits)

lemma history_loop_induct [consumes 0, case_names step]:
  fixes P :: "shell \<Rightarrow> nat \<Rightarrow> nat \<Rightarrow> bool"
  assumes "\<And>sh i n.
     (\<And>sh' n'. history_pos sh' = history_pos sh \<Longrightarrow> (i + 1) mod 20 \<noteq> history_pos sh
          \<Longrightarrow> history_pos sh < 20 \<Longrightarrow> P sh' ((i + 1) mod 20) n') \<Longrightarrow> P sh i n"
  shows "P sh i n"
proof (induction "ring_distance (history_pos sh) i" arbitrary: sh i n rule: less_induct)
  case less
  show ?case
  proof (rule assms)
    fix sh' :: shell and n' :: nat
    assume a: "history_pos sh' = history_pos sh" "(i + 1) mod 20 \<noteq> history_pos sh" "history_pos sh < 20"
    then have "ring_distance (history_pos sh') ((i + 1) mod 20) < ring_distance (history_pos sh) i"
      using ring_distance_step [of "history_pos sh" i] by simp
    then show "P sh' ((i + 1) mod 20) n'" by (rule less.hyps)
  qed
qed

lemma slot_at_blank_with [simp]:
  "slot_at (blank_with (history_str sh) p) i = slot_at sh i"
  by (simp add: slot_at_def blank_with_def)

lemma history_loop_text:
  "history_loop sh i n = printf sh (history_text (history_str sh) (history_pos sh) i n)
   \<and> history_text (history_str sh) (history_pos sh) i n
       = cell_text (slot_at sh i) n
         @ (if (i + 1) mod 20 \<noteq> history_pos sh \<and> history_pos sh < 20
            then history_text (history_str sh) (history_pos sh) ((i + 1) mod 20)
                   (n + cell_count (slot_at sh i))
            else [])"
proof (induction sh i n rule: history_loop_induct)
  case (step sh i n)
  let ?hs = "history_str sh" and ?p = "history_pos sh"
  let ?b = "blank_with ?hs ?p"
  let ?txt = "cell_text (slot_at sh i) n"
  let ?n1 = "n + cell_count (slot_at sh i)"
  let ?i1 = "(i + 1) mod 20"
  have pb: "history_pos ?b = ?p" "history_str ?b = ?hs" "stdout ?b = []"
    by (simp_all add: blank_with_def)
  show ?case
  proof (cases "?i1 \<noteq> ?p \<and> ?p < 20")
    case True
    have 1: "history_loop (printf sh ?txt) ?i1 ?n1
               = printf (printf sh ?txt) (history_text ?hs ?p ?i1 ?n1)"
      using step [of "printf sh ?txt" ?n1] True by simp
    have 2: "history_loop (printf ?b ?txt) ?i1 ?n1
               = printf (printf ?b ?txt) (history_text ?hs ?p ?i1 ?n1)"
      using step [of "printf ?b ?txt" ?n1] True pb by simp
    have "history_text ?hs ?p i n = stdout (history_loop (printf ?b ?txt) ?i1 ?n1)"
      unfolding history_text_def using True pb by (subst history_loop_unfold) simp
    then have T: "history_text ?hs ?p i n = ?txt @ history_text ?hs ?p ?i1 ?n1"
      using 2 pb by simp
    have "history_loop sh i n = history_loop (printf sh ?txt) ?i1 ?n1"
      using True by (subst history_loop_unfold) simp
    with 1 T True show ?thesis by (simp add: printf_printf)
  next
    case False
    have "history_text ?hs ?p i n = stdout (printf ?b ?txt)"
      unfolding history_text_def using False pb by (subst history_loop_unfold) auto
    then have T: "history_text ?hs ?p i n = ?txt" using pb by simp
    have "history_loop sh i n = printf sh ?txt"
      using False by (subst history_loop_unfold) auto
    with T False show ?thesis by auto
  qed
qed


lemma ring_no_return:
  fixes p k :: nat
  assumes "p < 20" "0 < k" "k < 20"
  shows "(p + k) mod 20 \<noteq> p"
proof (cases "p + k < 20")
  case True
  with assms show ?thesis by simp
next
  case False
  then have "(p + k) mod 20 = (p + k - 20) mod 20" by (simp add: le_mod_geq)
  also have "\<dots> = p + k - 20" using assms by simp
  finally show ?thesis using assms False by simp
qed

lemma history_text_cells:
  assumes "length hs = 20" "p < 20"
  shows "i < 20 \<Longrightarrow> (i + Suc d) mod 20 = p \<Longrightarrow> d < 20
         \<Longrightarrow> history_text hs p i n = render n (map (\<lambda>j. hs ! ((i + j) mod 20)) [0..<Suc d])"
proof (induction d arbitrary: i n)
  case 0
  have "slot_at (blank_with hs p) i = hs ! i" using assms 0 by (simp add: slot_at_def blank_with_def)
  then show ?case
    using history_loop_text [of "blank_with hs p" i n] 0 by (simp add: blank_with_def)
next
  case (Suc d)
  let ?i1 = "(i + 1) mod 20"
  have sl: "slot_at (blank_with hs p) i = hs ! i"
    using assms Suc.prems by (simp add: slot_at_def blank_with_def)
  have i1: "?i1 < 20" by simp
  have "(?i1 + Suc d) mod 20 = (i + 1 + Suc d) mod 20" by (rule mod_add_left_eq)
  then have p1: "(?i1 + Suc d) mod 20 = p" using Suc.prems(2) by simp
  have ne: "?i1 \<noteq> p"
  proof
    assume "?i1 = p"
    with p1 have "(p + Suc d) mod 20 = p" by simp
    with ring_no_return [of p "Suc d"] assms(2) Suc.prems(3) show False by simp
  qed
  have IH: "history_text hs p ?i1 (n + cell_count (hs ! i))
              = render (n + cell_count (hs ! i)) (map (\<lambda>j. hs ! ((?i1 + j) mod 20)) [0..<Suc d])"
    using Suc.IH [OF i1 p1] Suc.prems(3) by simp
  have sh: "map (\<lambda>j. hs ! ((i + j) mod 20)) [0..<Suc (Suc d)]
              = hs ! i # map (\<lambda>j. hs ! ((?i1 + j) mod 20)) [0..<Suc d]"
  proof -
    have "[0..<Suc (Suc d)] = 0 # [Suc 0..<Suc (Suc d)]" by (rule upt_conv_Cons) simp
    then have "[0..<Suc (Suc d)] = 0 # map Suc [0..<Suc d]" by (simp only: map_Suc_upt)
    moreover have "(i + Suc j) mod 20 = (?i1 + j) mod 20" for j
    proof -
      have "(?i1 + j) mod 20 = (i + 1 + j) mod 20" by (rule mod_add_left_eq)
      then show ?thesis by simp
    qed
    ultimately show ?thesis using Suc.prems(1) by (simp add: comp_def del: upt_Suc)
  qed
  have "history_text hs p i n
          = cell_text (hs ! i) n @ history_text hs p ?i1 (n + cell_count (hs ! i))"
    using history_loop_text [of "blank_with hs p" i n] sl ne assms(2)
    by (simp add: blank_with_def)
  with IH sh show ?case by (simp del: upt_Suc)
qed

lemma rotate_as_map:
  assumes "p < length hs"
  shows "rotate p hs = map (\<lambda>j. hs ! ((p + j) mod length hs)) [0..<length hs]"
  by (rule nth_equalityI) (simp_all add: nth_rotate)

lemma history_text_rotate:
  assumes "length hs = 20" "p < 20"
  shows "history_text hs p p 1 = render 1 (rotate p hs)"
proof -
  have e: "Suc 19 = (20 :: nat)" by simp
  have "(p + Suc 19) mod 20 = p" using assms(2) by simp
  from history_text_cells [OF assms assms(2) this, of 1]
  have "history_text hs p p 1 = render 1 (map (\<lambda>j. hs ! ((p + j) mod 20)) [0..<20])"
    unfolding e by simp
  moreover have "rotate p hs = map (\<lambda>j. hs ! ((p + j) mod 20)) [0..<20]"
    using rotate_as_map [of p hs] assms by simp
  ultimately show ?thesis by simp
qed


lemma numbered_from_Cons:
  "numbered_from n (e # es) = history_line n e @ numbered_from (Suc n) es"
proof -
  have "[n..<n + length (e # es)] = n # [Suc n..<n + length (e # es)]"
    by (rule upt_conv_Cons) simp
  then show ?thesis by (simp add: numbered_from_def)
qed

lemma render_numbered: "render n cs = numbered_from n (entries_of cs)"
proof (induction cs arbitrary: n)
  case Nil
  then show ?case by (simp add: numbered_from_def)
next
  case (Cons c cs)
  then show ?case
    by (cases c) (simp_all add: cell_text_def cell_count_def numbered_from_Cons)
qed

lemma entries_of_append: "entries_of (xs @ ys) = entries_of xs @ entries_of ys"
  by (induction xs rule: entries_of.induct) auto

lemma entries_of_replicate_None: "entries_of (replicate k None) = []"
  by (induction k) auto

lemma entries_of_map_Some: "entries_of (map Some es) = map (\<lambda>e. cstr_at (bytes e) 0) es"
  by (induction es) auto


lemma add_to_history_util_Ret:
  "add_to_history_util os l sh = Ret u sh1 \<Longrightarrow>
     sh1 = sh\<lparr>history_str := (history_str sh)[history_pos sh := Some (entry_for l)],
              history_pos := (history_pos sh + 1) mod 20\<rparr>"
  by (auto simp: add_to_history_util_def Let_def strcpy_def entry_for_def
        USH_MAX_HISTORY_COUNT_def split: if_splits)

lemma cstr_at_entry_for: "cstr_at (bytes (entry_for l)) 0 = cstr_at l 0"
proof -
  have "takeWhile (\<lambda>c. c \<noteq> NUL) (takeWhile (\<lambda>c. c \<noteq> NUL) xs @ [NUL])
          = takeWhile (\<lambda>c. c \<noteq> NUL) xs" for xs
    by (induction xs) auto
  then show ?thesis by (simp add: entry_for_def cstr_at_def)
qed

lemma entries_of_entry_for:
  "entries_of (map (Some \<circ> entry_for) ls) = map (\<lambda>l. cstr_at l 0) ls"
  by (induction ls) (simp_all add: cstr_at_entry_for)

lemma ring_push:
  assumes "p < length hs"
  shows "rotate ((p + 1) mod length hs) (hs[p := x]) = tl (rotate p hs) @ [x]"
proof -
  let ?ys = "hs[p := x]"
  have "rotate ((p + 1) mod length hs) ?ys = rotate (p + 1) ?ys"
    using rotate_conv_mod [of "p + 1" ?ys] by simp
  also have "\<dots> = rotate1 (rotate p ?ys)" by simp
  also have "rotate p ?ys = drop p ?ys @ take p ?ys"
    using assms by (simp add: rotate_drop_take)
  also have "drop p ?ys = x # drop (Suc p) hs"
    using assms by (simp add: drop_update_cancel upd_conv_take_nth_drop)
  also have "take p ?ys = take p hs" by simp
  finally have "rotate ((p + 1) mod length hs) ?ys = drop (Suc p) hs @ take p hs @ [x]" by simp
  moreover have "rotate p hs = hs ! p # drop (Suc p) hs @ take p hs"
    using assms by (simp add: rotate_drop_take Cons_nth_drop_Suc)
  ultimately show ?thesis by simp
qed

lemma ring_holds_step:
  assumes "ring_holds sh ls" and "add_to_history_util os l sh = Ret u sh1"
  shows "ring_holds sh1 (ls @ [l])"
proof -
  let ?hs = "history_str sh" and ?p = "history_pos sh"
  from assms(1) have len: "length ?hs = 20" and p: "?p < 20"
    and rot: "rotate ?p ?hs = replicate (20 - length ls) None @ map (Some \<circ> entry_for) (most_recent 20 ls)"
    by (simp_all add: ring_holds_def)
  from add_to_history_util_Ret [OF assms(2)]
  have hs1: "history_str sh1 = ?hs[?p := Some (entry_for l)]"
    and p1: "history_pos sh1 = (?p + 1) mod 20" by simp_all
  have "rotate (history_pos sh1) (history_str sh1) = tl (rotate ?p ?hs) @ [Some (entry_for l)]"
    using ring_push [of ?p ?hs "Some (entry_for l)"] p len hs1 p1 by simp
  also have "tl (rotate ?p ?hs) @ [Some (entry_for l)]
      = replicate (20 - length (ls @ [l])) None @ map (Some \<circ> entry_for) (most_recent 20 (ls @ [l]))"
  proof (cases "length ls < 20")
    case True
    then have "20 - length ls = Suc (20 - length (ls @ [l]))" by simp
    with True show ?thesis unfolding rot by (simp add: most_recent_def)
  next
    case False
    then have "tl (map (Some \<circ> entry_for) (drop (length ls - 20) ls))
                 = map (Some \<circ> entry_for) (drop (Suc (length ls - 20)) ls)"
      by (simp add: map_tl [symmetric] tl_drop drop_Suc)
    moreover from False have "Suc (length ls - 20) = length ls - 19" by simp
    ultimately show ?thesis using False unfolding rot by (simp add: most_recent_def)
  qed
  finally show ?thesis using len p hs1 p1 by (simp add: ring_holds_def)
qed

lemma ring_holds_record_all:
  "ring_holds sh ls0 \<Longrightarrow> record_all os ls sh = Ret u sh' \<Longrightarrow> ring_holds sh' (ls0 @ ls)"
proof (induction ls arbitrary: sh ls0)
  case Nil
  then show ?case by simp
next
  case (Cons l ls)
  from Cons.prems(2) obtain u1 sh1 where a: "add_to_history_util os l sh = Ret u1 sh1"
    and r: "record_all os ls sh1 = Ret u sh'"
    by (auto split: result.splits)
  from ring_holds_step [OF Cons.prems(1) a] have "ring_holds sh1 (ls0 @ [l])" .
  from Cons.IH [OF this r] show ?case by simp
qed

lemma ring_holds_initial:
  "history_str sh = replicate 20 None \<Longrightarrow> history_pos sh = 0 \<Longrightarrow> ring_holds sh []"
  by (simp add: ring_holds_def most_recent_def)

lemma record_all_returns:
  "\<forall>n. can_alloc os n \<Longrightarrow> \<exists>sh'. record_all os ls sh = Ret () sh'"
  by (induction ls arbitrary: sh) (auto simp: add_to_history_util_def Let_def)

lemma ush_history_text:
  "ush_history os args sh
     = Ret 1 (printf sh (history_text (history_str sh) (history_pos sh) (history_pos sh) 1))"
  using history_loop_text [of sh "history_pos sh" 1] by (simp add: ush_history_def)

lemma ush_history_ring:
  assumes "ring_holds sh ls"
  shows "ush_history os args sh
           = Ret 1 (printf sh (numbered_lines (map (\<lambda>l. cstr_at l 0) (most_recent 20 ls))))"
proof -
  from assms have len: "length (history_str sh) = 20" and p: "history_pos sh < 20"
    and rot: "rotate (history_pos sh) (history_str sh)
        = replicate (20 - length ls) None @ map (Some \<circ> entry_for) (most_recent 20 ls)"
    by (simp_all add: ring_holds_def)
  have "entries_of (rotate (history_pos sh) (history_str sh))
          = map (\<lambda>l. cstr_at l 0) (most_recent 20 ls)"
    unfolding rot
    by (simp only: entries_of_append entries_of_replicate_None entries_of_entry_for append_Nil)
  then show ?thesis
    using history_text_rotate [OF len p]
    by (simp add: ush_history_text render_numbered numbered_lines_def)
qed


text \<open>
  The order and the numbering of the listing. Starting from the state in which \<^verbatim>\<open>main\<close>
  leaves the history (every slot \<^verbatim>\<open>NULL\<close>, \<open>history_pos\<close> 0), let the lines \<open>ls\<close> be
  recorded one after the other by \<^verbatim>\<open>add_to_history_util\<close>. The listing visits the slots of
  the most recent 20 of them (all of them when there are at most 20), oldest first,
  numbers them 1, 2, ... without a gap and prints nothing for a slot that was never
  written. What it prints for a slot is what it reads there up to the terminator; the
  text below is what it prints when every terminator is still where \<^verbatim>\<open>strcpy\<close> wrote it,
  one byte after the block of the entry.
\<close>

lemma ush_history_ring_listing:
  assumes "history_str sh = replicate 20 None" and "history_pos sh = 0"
    and "record_all os ls sh = Ret () sh'"
  shows "ush_history os args sh'
           = Ret 1 (printf sh' (numbered_lines (map (\<lambda>l. cstr_at l 0) (most_recent 20 ls))))
         \<and> length (most_recent 20 ls) = min 20 (length ls)
         \<and> (length ls \<le> 20 \<longrightarrow> most_recent 20 ls = ls)
         \<and> (20 < length ls \<longrightarrow> most_recent 20 ls = drop (length ls - 20) ls)"
proof -
  have "ring_holds sh' ([] @ ls)"
    using ring_holds_initial [OF assms(1,2)] assms(3) by (rule ring_holds_record_all)
  then show ?thesis using ush_history_ring [of sh' ls os args] by (auto simp: most_recent_def)
qed

lemma ush_history_ring_example:
  "\<exists>sh'. record_all lp64_os (map c_string [''a'', ''b'', ''c'', ''d'', ''e'', ''f'', ''g'', ''h'', ''i'', ''j'', ''k'', ''l'', ''m'', ''n'', ''o'', ''p'', ''q'', ''r'', ''s'', ''t'', ''u'']) blank_shell = Ret () sh'
        \<and> ush_history lp64_os [''history''] sh' = Ret 1 (printf sh' ''   1   b\<newline>   2   c\<newline>   3   d\<newline>   4   e\<newline>   5   f\<newline>   6   g\<newline>   7   h\<newline>   8   i\<newline>   9   j\<newline>  10   k\<newline>  11   l\<newline>  12   m\<newline>  13   n\<newline>  14   o\<newline>  15   p\<newline>  16   q\<newline>  17   r\<newline>  18   s\<newline>  19   t\<newline>  20   u\<newline>'')"
proof -
  have "\<forall>n. can_alloc lp64_os n" by (simp add: lp64_os_def)
  from record_all_returns [OF this] obtain sh' where
    r: "record_all lp64_os (map c_string [''a'', ''b'', ''c'', ''d'', ''e'', ''f'', ''g'', ''h'', ''i'', ''j'', ''k'', ''l'', ''m'', ''n'', ''o'', ''p'', ''q'', ''r'', ''s'', ''t'', ''u'']) blank_shell = Ret () sh'" by blast
  have "ush_history lp64_os [''history''] sh'
          = Ret 1 (printf sh' (numbered_lines (map (\<lambda>l. cstr_at l 0) (most_recent 20 (map c_string [''a'', ''b'', ''c'', ''d'', ''e'', ''f'', ''g'', ''h'', ''i'', ''j'', ''k'', ''l'', ''m'', ''n'', ''o'', ''p'', ''q'', ''r'', ''s'', ''t'', ''u''])))))"
    using ush_history_ring_listing [OF _ _ r, of "[''history'']"]
    by (simp add: blank_shell_def)
  moreover have "numbered_lines (map (\<lambda>l. cstr_at l 0) (most_recent 20 (map c_string [''a'', ''b'', ''c'', ''d'', ''e'', ''f'', ''g'', ''h'', ''i'', ''j'', ''k'', ''l'', ''m'', ''n'', ''o'', ''p'', ''q'', ''r'', ''s'', ''t'', ''u''])))
                   = ''   1   b\<newline>   2   c\<newline>   3   d\<newline>   4   e\<newline>   5   f\<newline>   6   g\<newline>   7   h\<newline>   8   i\<newline>   9   j\<newline>  10   k\<newline>  11   l\<newline>  12   m\<newline>  13   n\<newline>  14   o\<newline>  15   p\<newline>  16   q\<newline>  17   r\<newline>  18   s\<newline>  19   t\<newline>  20   u\<newline>''"
    by code_simp
  ultimately show ?thesis using r by auto
qed

text \<open>
  No block of an entry holds a terminated string: the block has \<^verbatim>\<open>strlen(line)\<close> bytes,
  \<^verbatim>\<open>strcpy\<close> fills it with the characters of the line, none of which is a terminator, and
  writes the terminator after it.
\<close>

lemma block_string_entry_for: "block_string (entry_for l) = None"
proof -
  have "NUL \<notin> set (cstr_at l 0)"
    unfolding cstr_at_def using set_takeWhileD [of NUL "\<lambda>c. c \<noteq> NUL" "drop 0 l"] by blast
  then show ?thesis
    by (simp add: block_string_def entry_for_def sizeof_char_def strlen_def Let_def)
qed

lemma add_to_history_util_unterminated:
  assumes "add_to_history_util os l sh = Ret u sh'" and "history_pos sh < length (history_str sh)"
  shows "\<exists>e. history_str sh' ! history_pos sh = Some e \<and> block_string e = None
             \<and> strlen (bytes e) = alloc_size e"
  using assms add_to_history_util_Ret [OF assms(1)]
  by (simp add: block_string_entry_for cstr_at_entry_for strlen_def)
     (simp add: entry_for_def sizeof_char_def strlen_def)

text \<open>
  Claim C3 fails on the code, by the defect of claim C2. \<^verbatim>\<open>ush_history\<close> prints each entry
  with \<^verbatim>\<open>printf("%4lu   %s\n", ...)\<close>, which reads the entry up to its terminator; the block
  of the entry comes from \<^verbatim>\<open>malloc(strlen(line))\<close> and has no room for one. After the
  command \<^verbatim>\<open>aaaaaaaaaaaaaaaaaaaaaaaa\<close> (24 letters) and the command \<^verbatim>\<open>history\<close>, the two
  entries have blocks of 24 and 7 bytes, neither block holds a terminated string, and
  the listing reads 24 and 7 characters and then a byte after the block. What that byte
  is when the listing runs is outside the program's control, so that the text listed is
  not determined to be the entries recorded.
\<close>

theorem ush_history_reads_past_block:
  "map (map_option (\<lambda>e. (alloc_size e, strlen (bytes e), block_string e)))
     (take 2 (history_str (state_of (ush_loop_body lp64_os ''history\<newline>''
        (state_of (ush_loop_body lp64_os ''aaaaaaaaaaaaaaaaaaaaaaaa\<newline>'' blank_shell))))))
   = [Some (24, 24, None), Some (7, 7, None)]"
  by code_simp

section \<open>The history buffer: what changes it\<close>

lemma add_to_history_util_printf:
  "history_str (state_of (add_to_history_util os l (printf sh a))) = history_str (state_of (add_to_history_util os l sh))
   \<and> history_pos (state_of (add_to_history_util os l (printf sh a))) = history_pos (state_of (add_to_history_util os l sh))"
  by (simp add: add_to_history_util_def Let_def fprintf_stderr_def printf_def)

text \<open>
  Claim C10. \<^verbatim>\<open>ush_history\<close> changes nothing but the standard output: the 20 slots, the
  cursor, the standard error and the directory are as before. Called again with no
  record in between, it prints the same text again, and a later
  \<^verbatim>\<open>add_to_history_util\<close> leaves the history as it would have without the listing.
\<close>

theorem ush_history_read_only:
  "history_str (state_of (ush_history os args sh)) = history_str sh
   \<and> history_pos (state_of (ush_history os args sh)) = history_pos sh
   \<and> stderr (state_of (ush_history os args sh)) = stderr sh
   \<and> cwd (state_of (ush_history os args sh)) = cwd sh
   \<and> (\<exists>text. ush_history os args sh = Ret 1 (printf sh text)
          \<and> ush_history os args' (printf sh text) = Ret 1 (printf (printf sh text) text))
   \<and> history_str (state_of (add_to_history_util os l (state_of (ush_history os args sh))))
       = history_str (state_of (add_to_history_util os l sh))
   \<and> history_pos (state_of (add_to_history_util os l (state_of (ush_history os args sh))))
       = history_pos (state_of (add_to_history_util os l sh))"
proof -
  let ?text = "history_text (history_str sh) (history_pos sh) (history_pos sh) 1"
  have 1: "ush_history os args sh = Ret 1 (printf sh ?text)" by (rule ush_history_text)
  have 2: "ush_history os args' (printf sh ?text) = Ret 1 (printf (printf sh ?text) ?text)"
    using ush_history_text [of os args' "printf sh ?text"] by simp
  from 1 2 show ?thesis using add_to_history_util_printf [of os l sh ?text] by auto
qed



lemma fprintf_stderr_fields [simp]:
  "history_str (fprintf_stderr sh a) = history_str sh"
  "history_pos (fprintf_stderr sh a) = history_pos sh"
  "stdout (fprintf_stderr sh a) = stdout sh"
  by (simp_all add: fprintf_stderr_def)



text \<open>
  What the loop hands to \<^verbatim>\<open>add_to_history_util\<close>: the buffer after \<^verbatim>\<open>strtok\<close>, which as a
  C string is the delimiters before the first token followed by the first token. It is
  never the whole line when the line ends with a delimiter, as every line ending with a
  newline does.
\<close>

lemma split_loop_keeps_cstr:
  "split_loop os sh st = Ret st' sh' \<Longrightarrow> terminated (line st) (save_ptr st) u
   \<Longrightarrow> cstr_at (line st') u = cstr_at (line st) u"
proof (induction st rule: split_loop_measure_induct)
  case (step st)
  have next_step: "cstr_at (line st') u = cstr_at (line st) u"
    if X: "line X = line st" "save_ptr X = save_ptr st" "token st \<noteq> None"
      and lp: "split_loop os sh (next_token X) = Ret st' sh'" for X
  proof -
    obtain r b' p' where tk: "strtok (line st) (save_ptr st) USH_TOK_DELIM = (r, b', p')"
      by (cases "strtok (line st) (save_ptr st) USH_TOK_DELIM") auto
    have nt: "line (next_token X) = b'" "save_ptr (next_token X) = p'"
      using tk X by (simp_all add: next_token_def)
    from strtok_preserves [OF tk step.prems(2)]
    have k: "cstr_at b' u = cstr_at (line st) u" and t': "terminated b' p' u" by simp_all
    from step.IH [OF X lp] t' nt have "cstr_at (line st') u = cstr_at b' u" by simp
    with k show ?thesis by simp
  qed
  from step.prems(1) show ?case
  proof (cases rule: split_loop_cases)
    case stop
    then show ?thesis by simp
  next
    case (grow t)
    then show ?thesis by (intro next_step [of "grow (push_token os st t)"]) simp_all
  next
    case (push t)
    then show ?thesis by (intro next_step [of "push_token os st t"]) simp_all
  qed
qed

lemma strtok_first_prefix:
  assumes "strtok l 0 d = (Some t, b, p)"
  shows "cstr_at b 0 = takeWhile (\<lambda>c. c \<in> set d) (cstr_at l 0) @ cstr_at b t"
proof -
  let ?Q = "\<lambda>c. c \<noteq> NUL \<and> c \<in> set d"
  define e where "e = t + strcspn_at l t d"
  from assms have t: "t = length (takeWhile ?Q l)" and ns: "\<not> at_NUL l t"
    by (auto simp: strtok_def Let_def strspn_at_def split: if_splits)
  have "l ! t \<notin> set d" using ns strspn_stop [of l 0 d] t by (simp add: strspn_at_def)
  then have "0 < strcspn_at l t d" using ns by (rule strcspn_pos [rotated])
  then have te: "t < e" by (simp add: e_def)
  from assms ns have "b = l \<or> b = l[e := NUL]"
    by (auto simp: strtok_def Let_def strspn_at_def e_def t split: if_splits)
  with te have tk: "take t b = take t l" by auto
  have "take t l = takeWhile ?Q l" unfolding t by (rule takeWhile_eq_take [symmetric])
  with tk have pre: "take t b = takeWhile ?Q l" by simp
  then have nn: "\<forall>c\<in>set (take t b). c \<noteq> NUL" by (auto dest: set_takeWhileD)
  have "cstr_at b 0 = takeWhile (\<lambda>c. c \<noteq> NUL) (take t b @ drop t b)" by (simp add: cstr_at_def)
  also have "\<dots> = take t b @ takeWhile (\<lambda>c. c \<noteq> NUL) (drop t b)"
    using nn by (simp add: takeWhile_append2 del: append_take_drop_id)
  finally have "cstr_at b 0 = takeWhile ?Q l @ cstr_at b t" using pre by (simp add: cstr_at_def)
  moreover have "takeWhile (\<lambda>c. c \<in> set d) (cstr_at l 0) = takeWhile ?Q l"
    by (simp add: cstr_at_def takeWhile_takeWhile)
  ultimately show ?thesis by simp
qed

lemma ush_split_line_first:
  assumes "ush_split_line os l sh = Ret st sh'" and "argv st \<noteq> []"
  shows "cstr_at (line st) 0
           = takeWhile (\<lambda>c. c \<in> set USH_TOK_DELIM) (cstr_at l 0) @ hd (argv st)"
proof -
  obtain r b p where tk: "strtok l 0 USH_TOK_DELIM = (r, b, p)"
    by (cases "strtok l 0 USH_TOK_DELIM") auto
  define st0 where "st0 = \<lparr>line = b, save_ptr = p, token = r, tokens = [], pos = 0,
     bufsize = USH_TOK_BUFSIZE, alloc_bytes = sizeof_char_ptr os * USH_TOK_BUFSIZE,
     oob_stores = []\<rparr>"
  from assms tk obtain st1 where lp: "split_loop os sh st0 = Ret st1 sh'"
    and st: "st = store_slot os st1 None"
    by (auto simp: ush_split_line_def st0_def split: if_splits result.splits)
  have "argv st = spec_tokens USH_TOK_DELIM (cstr_at l 0)"
    using assms(1) by (rule ush_split_line_argv)
  with assms(2) strtok_tokens [OF tk] obtain t where r: "r = Some t"
    and sp: "argv st = cstr_at b t # spec_tokens USH_TOK_DELIM (cstr_at b p)"
    by (cases r) auto
  have tt: "terminated b p t" using strtok_terminated tk r by simp
  then have t0: "terminated b p 0" by (auto simp: terminated_def)
  have "cstr_at (line st1) 0 = cstr_at (line st0) 0"
    using lp t0 by (intro split_loop_keeps_cstr) (simp_all add: st0_def)
  then have "cstr_at (line st) 0 = cstr_at b 0" using st by (simp add: st0_def)
  also have "\<dots> = takeWhile (\<lambda>c. c \<in> set USH_TOK_DELIM) (cstr_at l 0) @ cstr_at b t"
    using tk r by (intro strtok_first_prefix) simp
  finally show ?thesis using sp by simp
qed

lemma first_token_is_not_the_line:
  assumes "spec_tokens ds s \<noteq> []" and "s \<noteq> []" and "last s \<in> set ds"
  shows "takeWhile (\<lambda>c. c \<in> set ds) s @ hd (spec_tokens ds s) \<noteq> s"
proof
  let ?t = "hd (spec_tokens ds s)"
  assume eq: "takeWhile (\<lambda>c. c \<in> set ds) s @ ?t = s"
  from assms(1) have "?t \<in> set (spec_tokens ds s)" by simp
  from spec_tokens_sound [OF this] have ne: "?t \<noteq> []" and nd: "set ?t \<inter> set ds = {}" by simp_all
  from eq ne have "last s = last ?t" by (metis last_appendR)
  with ne nd assms(3) show False by (metis disjoint_iff last_in_set)
qed

lemma recorded_text_is_first_token:
  assumes "ush_split_line os (c_string input) sh = Ret st sh'" and "argv st \<noteq> []"
    and "add_to_history_util os (line st) sh' = Ret u sh''"
    and "history_pos sh' < length (history_str sh')"
  shows "\<exists>e. history_str sh'' ! history_pos sh' = Some e
           \<and> cstr_at (bytes e) 0
               = takeWhile (\<lambda>c. c \<in> set USH_TOK_DELIM) (cstr_at (c_string input) 0) @ hd (argv st)"
  using add_to_history_util_Ret [OF assms(3)] assms(4) ush_split_line_first [OF assms(1,2)]
  by (simp add: cstr_at_entry_for)

text \<open>
  Claim C1 fails on the code. \<^verbatim>\<open>ush_loop\<close> calls \<^verbatim>\<open>ush_split_line(line)\<close> before
  \<^verbatim>\<open>add_to_history_util(line)\<close>, so the copy is made from the buffer in which \<^verbatim>\<open>strtok\<close>
  has already put a terminator after the first token. For the line \<^verbatim>\<open>"echo a b\n"\<close> the
  entry stored in slot 0 is \<^verbatim>\<open>"echo"\<close>.
\<close>

theorem history_entry_is_first_token:
  "map (map_option (\<lambda>e. cstr_at (bytes e) 0))
     (take 2 (history_str (state_of (ush_loop_body lp64_os ''echo a b\<newline>'' blank_shell))))
   = [Some ''echo'', None]"
  by code_simp

lemma add_to_history_util_overrun:
  assumes "add_to_history_util os l sh = Ret u sh'" and "history_pos sh < length (history_str sh)"
  shows "\<exists>e. history_str sh' ! history_pos sh = Some e \<and> alloc_size e = strlen l
             \<and> length (bytes e) = strlen l + 1 \<and> \<not> in_bounds e"
  using assms add_to_history_util_Ret [OF assms(1)]
  by (simp add: entry_for_def in_bounds_def sizeof_char_def strlen_def)

text \<open>
  Claim C2 fails on the code. The block is \<^verbatim>\<open>malloc(line_size * sizeof(char))\<close> with
  \<^verbatim>\<open>line_size = strlen(line)\<close>, and \<^verbatim>\<open>strcpy\<close> writes \<^verbatim>\<open>line_size + 1\<close> bytes into it. This
  is so for every line; for \<^verbatim>\<open>"ls\n"\<close> the block has 2 bytes and 3 are written.
\<close>

theorem history_entry_overruns_block:
  "map (map_option (\<lambda>e. (alloc_size e, bytes e, in_bounds e)))
     (take 1 (history_str (state_of (ush_loop_body lp64_os ''ls\<newline>'' blank_shell))))
   = [Some (2, ''ls'' @ [NUL], False)]"
  by code_simp

section \<open>pwd: the buffer\<close>

lemma pwd_loop_unfold:
  "pwd_loop os sh sz =
     (if \<not> can_alloc os (unat sz)
      then Halt (Exited EXIT_FAILURE) (fprintf_stderr sh ''ush: allocation error\<newline>'')
      else case getcwd os sh (unat sz) of
        Inr ptr \<Rightarrow> Ret 1 (printf sh ptr)
      | Inl e \<Rightarrow>
          if e \<noteq> ERANGE then Ret 1 (perror os sh ''ush'' e)
          else pwd_loop os sh (sz * 2))"
  by (rule pwd_loop.simps)

lemma pwd_loop_status: "pwd_loop os sh sz = Ret r sh' \<Longrightarrow> r = 1"
proof (induction os sh sz rule: pwd_loop.induct)
  case (1 os sh sz)
  show ?case
  proof (cases "can_alloc os (unat sz)")
    case False
    with "1.prems" show ?thesis by (subst (asm) pwd_loop_unfold) simp
  next
    case True
    show ?thesis
    proof (cases "getcwd os sh (unat sz)")
      case (Inr ptr)
      with True "1.prems" show ?thesis by (subst (asm) pwd_loop_unfold) simp
    next
      case (Inl e)
      show ?thesis
      proof (cases "e = ERANGE")
        case False
        with Inl True "1.prems" show ?thesis by (subst (asm) pwd_loop_unfold) simp
      next
        case e: True
        with Inl True "1.prems" have "pwd_loop os sh (sz * 2) = Ret r sh'"
          by (subst (asm) pwd_loop_unfold) simp
        with "1.IH" [of e] True Inl e show ?thesis by simp
      qed
    qed
  qed
qed

lemma pwd_loop_returns:
  "\<forall>n. can_alloc os n \<Longrightarrow> \<exists>sh'. pwd_loop os sh sz = Ret 1 sh'"
proof (induction os sh sz rule: pwd_loop.induct)
  case (1 os sh sz)
  then have alloc: "can_alloc os (unat sz)" by simp
  show ?case
  proof (cases "getcwd os sh (unat sz)")
    case (Inr ptr)
    with alloc show ?thesis by (subst pwd_loop_unfold) simp
  next
    case (Inl e)
    show ?thesis
    proof (cases "e = ERANGE")
      case False
      with Inl alloc show ?thesis by (subst pwd_loop_unfold) simp
    next
      case True
      with "1.IH" [of e] alloc Inl "1.prems" obtain sh' where "pwd_loop os sh (sz * 2) = Ret 1 sh'"
        by auto
      with True Inl alloc show ?thesis by (subst pwd_loop_unfold) simp
    qed
  qed
qed

lemma pwd_loop_doubles:
  "can_alloc os (unat sz) \<Longrightarrow> getcwd os sh (unat sz) = Inl ERANGE
   \<Longrightarrow> pwd_loop os sh sz = pwd_loop os sh (sz * 2)"
  by (subst pwd_loop_unfold) simp

lemma pwd_loop_success:
  "can_alloc os (unat sz) \<Longrightarrow> getcwd os sh (unat sz) = Inr path
   \<Longrightarrow> pwd_loop os sh sz = Ret 1 (printf sh path)"
  by (subst pwd_loop_unfold) simp

lemma double_nonzero:
  fixes sz :: "32 word"
  assumes "sz \<noteq> 0" and "unat sz < 2 ^ 31"
  shows "sz * 2 \<noteq> 0"
proof -
  have "unat (sz * 2) = (unat sz * 2) mod 2 ^ 32" by (simp add: unat_word_ariths)
  also have "\<dots> = unat sz * 2" using assms(2) by simp
  finally have "unat (sz * 2) \<noteq> 0" using assms(1) by (simp add: unat_eq_0)
  then show ?thesis by (simp add: unat_eq_0)
qed

lemma pwd_loop_prints_cwd:
  "\<forall>n. can_alloc os n \<Longrightarrow> getcwd_errno os = None \<Longrightarrow> length (cwd sh) < 2 ^ 31 \<Longrightarrow> sz \<noteq> 0
   \<Longrightarrow> pwd_loop os sh sz = Ret 1 (printf sh (cwd sh))"
proof (induction os sh sz rule: pwd_loop.induct)
  case (1 os sh sz)
  from "1.prems" have alloc: "can_alloc os (unat sz)" and nz: "unat sz \<noteq> 0"
    by (simp_all add: unat_eq_0)
  show ?case
  proof (cases "unat sz < length (cwd sh) + 1")
    case False
    with nz "1.prems" have "getcwd os sh (unat sz) = Inr (cwd sh)" by (simp add: getcwd_def)
    with alloc show ?thesis by (rule pwd_loop_success)
  next
    case True
    with nz "1.prems" have g: "getcwd os sh (unat sz) = Inl ERANGE" by (simp add: getcwd_def)
    from True "1.prems" have "unat sz < 2 ^ 31" by simp
    with "1.prems" have "sz * 2 \<noteq> 0" by (intro double_nonzero) simp_all
    with "1.IH" [of ERANGE] alloc g "1.prems"
    have "pwd_loop os sh (sz * 2) = Ret 1 (printf sh (cwd sh))" by simp
    with pwd_loop_doubles [OF alloc g] show ?thesis by simp
  qed
qed

lemma pwd_initial_size_cases:
  "pwd_initial_size (- 1) = 1024
   \<and> (10240 < path_max \<longrightarrow> pwd_initial_size path_max = 10240)
   \<and> (0 \<le> path_max \<and> path_max \<le> 10240 \<longrightarrow> unat (pwd_initial_size path_max) = nat path_max)"
proof -
  have "unat (word_of_int path_max :: 32 word) = nat path_max"
    if "0 \<le> path_max" "path_max \<le> 10240"
  proof -
    have "unat (word_of_int path_max :: 32 word) = nat (path_max mod 2 ^ 32)"
      by (simp add: unat_eq_nat_uint uint_word_of_int)
    also have "path_max mod 2 ^ 32 = path_max" using that by simp
    finally show ?thesis .
  qed
  then show ?thesis by (auto simp: pwd_initial_size_def)
qed

text \<open>
  Claim C8, as the code has it. The first size is 1024 when \<^verbatim>\<open>pathconf\<close> gives no limit
  (\<^verbatim>\<open>-1\<close>), 10240 when the limit is above 10240, and the limit itself otherwise: 1024 is
  a fallback, not a lower bound. Each round asks \<^verbatim>\<open>getcwd\<close> with the current size; on
  \<^verbatim>\<open>ERANGE\<close> the next round runs with twice the size; on success the directory is printed
  with nothing after it and 1 is returned. When the allocations succeed, \<^verbatim>\<open>getcwd\<close> has
  no other error, the first size is not 0 and the directory is shorter than \<open>2\<^sup>3\<^sup>1\<close> bytes,
  \<^verbatim>\<open>ush_pwd\<close> prints exactly the working directory.
\<close>

theorem ush_pwd_buffer:
  "pwd_initial_size (- 1) = 1024
   \<and> (10240 < path_max \<longrightarrow> pwd_initial_size path_max = 10240)
   \<and> (0 \<le> path_max \<and> path_max \<le> 10240 \<longrightarrow> unat (pwd_initial_size path_max) = nat path_max)
   \<and> ush_pwd os args sh = pwd_loop os sh (pwd_initial_size (pathconf_PATH_MAX os))
   \<and> (can_alloc os (unat sz) \<and> getcwd os sh (unat sz) = Inl ERANGE
        \<longrightarrow> pwd_loop os sh sz = pwd_loop os sh (sz * 2))
   \<and> (can_alloc os (unat sz) \<and> getcwd os sh (unat sz) = Inr path
        \<longrightarrow> pwd_loop os sh sz = Ret 1 (printf sh path))
   \<and> ((\<forall>n. can_alloc os n) \<and> getcwd_errno os = None \<and> length (cwd sh) < 2 ^ 31
        \<and> (pathconf_PATH_MAX os = - 1 \<or> 0 < pathconf_PATH_MAX os)
        \<longrightarrow> ush_pwd os args sh = Ret 1 (printf sh (cwd sh)))"
proof -
  have e2e: "ush_pwd os args sh = Ret 1 (printf sh (cwd sh))"
    if a: "\<forall>n. can_alloc os n" "getcwd_errno os = None" "length (cwd sh) < 2 ^ 31"
      and pm: "pathconf_PATH_MAX os = - 1 \<or> 0 < pathconf_PATH_MAX os"
  proof -
    have "pwd_initial_size (pathconf_PATH_MAX os) \<noteq> 0"
    proof (cases "pathconf_PATH_MAX os = - 1 \<or> 10240 < pathconf_PATH_MAX os")
      case True
      then show ?thesis by (auto simp: pwd_initial_size_def)
    next
      case False
      with pm have r: "0 \<le> pathconf_PATH_MAX os \<and> pathconf_PATH_MAX os \<le> 10240"
        and pos: "0 < pathconf_PATH_MAX os" by auto
      from pwd_initial_size_cases [of "pathconf_PATH_MAX os"] r
      have "unat (pwd_initial_size (pathconf_PATH_MAX os)) = nat (pathconf_PATH_MAX os)" by blast
      with pos show ?thesis by (auto simp: unat_eq_0 [symmetric] simp del: unat_eq_0)
    qed
    with a show ?thesis unfolding ush_pwd_def by (intro pwd_loop_prints_cwd)
  qed
  show ?thesis
    using pwd_initial_size_cases [of path_max] pwd_loop_doubles [of os sz sh]
      pwd_loop_success [of os sz sh path] e2e
    by (simp add: ush_pwd_def)
qed

theorem ush_pwd_buffer_witness:
  "ush_pwd lp64_os [''pwd''] blank_shell = Ret 1 (printf blank_shell ''/'')
   \<and> pwd_initial_size 4096 = 4096 \<and> pwd_initial_size 20000 = 10240"
proof -
  have "(\<forall>n. can_alloc lp64_os n) \<and> getcwd_errno lp64_os = None \<and> length (cwd blank_shell) < 2 ^ 31
        \<and> (pathconf_PATH_MAX lp64_os = - 1 \<or> 0 < pathconf_PATH_MAX lp64_os)"
    by (simp add: lp64_os_def blank_shell_def)
  moreover have "(10240 :: int) < 20000" by simp
  ultimately have "ush_pwd lp64_os [''pwd''] blank_shell = Ret 1 (printf blank_shell (cwd blank_shell))"
    and "pwd_initial_size 20000 = 10240"
    using ush_pwd_buffer [of 20000 lp64_os "[''pwd'']" blank_shell 0 "[]"] by blast+
  moreover have "pwd_initial_size 4096 = 4096" by (simp add: pwd_initial_size_def)
  ultimately show ?thesis by (simp add: blank_shell_def)
qed

text \<open>
  Claim C8 as stated fails: with a path limit of 256 the first size is 256, below 1024.
\<close>

theorem pwd_initial_size_below_1024_counterexample:
  "\<not> 1024 \<le> unat (pwd_initial_size (pathconf_PATH_MAX (lp64_os\<lparr>pathconf_PATH_MAX := 256\<rparr>)))"
  by (simp add: pwd_initial_size_def)


section \<open>The dispatcher's status\<close>

lemma execute_scan_dispatch:
  "execute_scan os args sh 0 =
     (if hd args = ''cd'' then ush_cd os args sh
      else if hd args = ''help'' then ush_help os args sh
      else if hd args = ''exit'' then ush_exit os args sh
      else if hd args = ''echo'' then ush_echo os args sh
      else if hd args = ''history'' then ush_history os args sh
      else if hd args = ''pwd'' then ush_pwd os args sh
      else ush_launch os args sh)"
proof -
  have n: "ush_num_builtins = 6" by (simp add: ush_num_builtins_def builtin_str_def)
  have s: "execute_scan os args sh i =
     (if i < 6 then
        (if hd args = builtin_str ! i then (builtin_func ! i) os args sh
         else execute_scan os args sh (i + 1))
      else ush_launch os args sh)" for i
    by (subst execute_scan.simps) (simp add: n)
  have e6: "execute_scan os args sh 6 = ush_launch os args sh" by (subst s) simp
  have e5: "execute_scan os args sh 5 = (if hd args = ''pwd'' then ush_pwd os args sh else ush_launch os args sh)"
    by (subst s) (simp add: builtin_str_def builtin_func_def e6)
  have e4: "execute_scan os args sh 4 = (if hd args = ''history'' then ush_history os args sh else execute_scan os args sh 5)"
    by (subst s) (simp add: builtin_str_def builtin_func_def)
  have e3: "execute_scan os args sh 3 = (if hd args = ''echo'' then ush_echo os args sh else execute_scan os args sh 4)"
    by (subst s) (simp add: builtin_str_def builtin_func_def)
  have e2: "execute_scan os args sh 2 = (if hd args = ''exit'' then ush_exit os args sh else execute_scan os args sh 3)"
    by (subst s) (simp add: builtin_str_def builtin_func_def)
  have e1: "execute_scan os args sh 1 = (if hd args = ''help'' then ush_help os args sh else execute_scan os args sh 2)"
    by (subst s) (simp add: builtin_str_def builtin_func_def flip: numeral_2_eq_2)
  have e0: "execute_scan os args sh 0 = (if hd args = ''cd'' then ush_cd os args sh else execute_scan os args sh 1)"
    by (subst s) (simp add: builtin_str_def builtin_func_def)
  show ?thesis unfolding e0 e1 e2 e3 e4 e5 ..
qed

lemma ush_cd_returns: "\<exists>sh'. ush_cd os args sh = Ret 1 sh'"
  by (simp add: ush_cd_def split: list.splits sum.splits)

lemma ush_help_returns: "\<exists>sh'. ush_help os args sh = Ret 1 sh'"
  by (simp add: ush_help_def Let_def)

lemma ush_echo_returns: "\<exists>sh'. ush_echo os args sh = Ret 1 sh'"
  by (simp add: ush_echo_def)

lemma ush_history_returns: "\<exists>sh'. ush_history os args sh = Ret 1 sh'"
  by (simp add: ush_history_def)

lemma ush_launch_status: "ush_launch os args sh = Ret r sh' \<Longrightarrow> r = 1"
  by (auto simp: ush_launch_def split: fork_result.splits option.splits)

lemma ush_launch_returns: "fork os \<noteq> Fork_child \<Longrightarrow> \<exists>sh'. ush_launch os args sh = Ret 1 sh'"
  by (cases "fork os") (auto simp: ush_launch_def)

lemma execute_scan_status:
  assumes "execute_scan os args sh 0 = Ret r sh'"
  shows "if hd args = ''exit'' then r = 0 else r = 1"
proof (cases "hd args = ''exit''")
  case True
  with assms show ?thesis by (simp add: execute_scan_dispatch ush_exit_def)
next
  case False
  consider (is_cd) "hd args = ''cd''" | (is_help) "hd args = ''help''" | (is_echo) "hd args = ''echo''"
    | (is_history) "hd args = ''history''" | (is_pwd) "hd args = ''pwd''"
    | (is_other) "hd args \<notin> {''cd'', ''help'', ''exit'', ''echo'', ''history'', ''pwd''}"
    using False by blast
  then have "r = 1"
  proof cases
    case is_cd
    with assms ush_cd_returns [of os args sh] show ?thesis
      by (auto simp: execute_scan_dispatch)
  next
    case is_help
    with assms ush_help_returns [of os args sh] show ?thesis
      by (auto simp: execute_scan_dispatch)
  next
    case is_echo
    with assms ush_echo_returns [of os args sh] show ?thesis
      by (auto simp: execute_scan_dispatch)
  next
    case is_history
    with assms ush_history_returns [of os args sh] show ?thesis
      by (auto simp: execute_scan_dispatch)
  next
    case is_pwd
    with assms have "pwd_loop os sh (pwd_initial_size (pathconf_PATH_MAX os)) = Ret r sh'"
      by (simp add: execute_scan_dispatch ush_pwd_def)
    then show ?thesis by (rule pwd_loop_status)
  next
    case is_other
    with assms have "ush_launch os args sh = Ret r sh'"
      by (simp add: execute_scan_dispatch)
    then show ?thesis by (rule ush_launch_status)
  qed
  with False show ?thesis by simp
qed

lemma execute_status_iff:
  assumes "ush_execute os args sh = Ret r sh'"
  shows "(r = 0 \<or> r = 1) \<and> (r = 0 \<longleftrightarrow> args \<noteq> [] \<and> hd args = ''exit'')"
proof (cases "args = []")
  case True
  with assms show ?thesis by (simp add: ush_execute_def)
next
  case False
  with assms have "execute_scan os args sh 0 = Ret r sh'" by (simp add: ush_execute_def)
  from execute_scan_status [OF this] False show ?thesis by (auto split: if_splits)
qed

text \<open>
  Claim C4. \<^verbatim>\<open>ush_execute\<close> returns 1 on an empty argument list. Whatever it returns is 0
  or 1, and it is 0 exactly when the command name is \<^verbatim>\<open>exit\<close>: \<^verbatim>\<open>ush_exit\<close> returns 0;
  \<^verbatim>\<open>ush_cd\<close>, \<^verbatim>\<open>ush_help\<close>, \<^verbatim>\<open>ush_echo\<close> and \<^verbatim>\<open>ush_history\<close> always return 1; \<^verbatim>\<open>ush_pwd\<close>
  returns 1 whenever it returns, and it returns when its allocations succeed (a failed
  allocation ends the process); \<^verbatim>\<open>ush_launch\<close> returns 1 whenever it returns, which is
  whenever the process is not the new child, and in the parent whatever the status of
  the child. The loop stops on the status 0 and goes on otherwise.
\<close>

theorem ush_execute_status:
  "ush_execute os [] sh = Ret 1 sh
   \<and> ush_exit os args sh = Ret 0 sh
   \<and> ush_execute os (''exit'' # rest) sh = Ret 0 sh
   \<and> (\<forall>r sh'. ush_execute os args sh = Ret r sh' \<longrightarrow>
         (r = 0 \<or> r = 1) \<and> (r = 0 \<longleftrightarrow> args \<noteq> [] \<and> hd args = ''exit''))
   \<and> (\<exists>sh'. ush_cd os args sh = Ret 1 sh')
   \<and> (\<exists>sh'. ush_help os args sh = Ret 1 sh')
   \<and> (\<exists>sh'. ush_echo os args sh = Ret 1 sh')
   \<and> (\<exists>sh'. ush_history os args sh = Ret 1 sh')
   \<and> (\<forall>r sh'. ush_pwd os args sh = Ret r sh' \<longrightarrow> r = 1)
   \<and> ((\<forall>n. can_alloc os n) \<longrightarrow> (\<exists>sh'. ush_pwd os args sh = Ret 1 sh'))
   \<and> (\<forall>r sh'. ush_launch os args sh = Ret r sh' \<longrightarrow> r = 1)
   \<and> (fork os \<noteq> Fork_child \<longrightarrow> (\<exists>sh'. ush_launch os args sh = Ret 1 sh'))
   \<and> (\<forall>status. fork os = Fork_parent status \<longrightarrow> ush_launch os args sh = Ret 1 sh)
   \<and> (\<forall>r sh1. ush_loop_body os input sh = Ret r sh1 \<longrightarrow>
         ush_loop os (input # inputs) sh = (if r = 0 then Ret () sh1 else ush_loop os inputs sh1))"
proof -
  have a: "ush_execute os [] sh = Ret 1 sh" by (simp add: ush_execute_def)
  have b: "ush_exit os args sh = Ret 0 sh" by (simp add: ush_exit_def)
  have c: "ush_execute os (''exit'' # rest) sh = Ret 0 sh"
    by (simp add: ush_execute_def execute_scan_dispatch ush_exit_def)
  have d: "\<forall>r sh'. ush_execute os args sh = Ret r sh' \<longrightarrow>
         (r = 0 \<or> r = 1) \<and> (r = 0 \<longleftrightarrow> args \<noteq> [] \<and> hd args = ''exit'')"
    using execute_status_iff by blast
  have e: "\<forall>r sh'. ush_pwd os args sh = Ret r sh' \<longrightarrow> r = 1"
    using pwd_loop_status by (auto simp: ush_pwd_def)
  have f: "(\<forall>n. can_alloc os n) \<longrightarrow> (\<exists>sh'. ush_pwd os args sh = Ret 1 sh')"
    using pwd_loop_returns by (auto simp: ush_pwd_def)
  have g: "\<forall>r sh'. ush_launch os args sh = Ret r sh' \<longrightarrow> r = 1"
    using ush_launch_status by blast
  have h: "fork os \<noteq> Fork_child \<longrightarrow> (\<exists>sh'. ush_launch os args sh = Ret 1 sh')"
    using ush_launch_returns by blast
  have i: "\<forall>status. fork os = Fork_parent status \<longrightarrow> ush_launch os args sh = Ret 1 sh"
    by (simp add: ush_launch_def)
  have j: "\<forall>r sh1. ush_loop_body os input sh = Ret r sh1 \<longrightarrow>
         ush_loop os (input # inputs) sh = (if r = 0 then Ret () sh1 else ush_loop os inputs sh1)"
    by simp
  show ?thesis
    by (intro conjI a b c d e f g h i j ush_cd_returns ush_help_returns ush_echo_returns
          ush_history_returns)
qed


theorem ush_execute_status_witness:
  "ush_launch lp64_os [''ls'', ''-l''] blank_shell = Ret 1 blank_shell
   \<and> (\<exists>sh'. ush_pwd lp64_os [''ls'', ''-l''] blank_shell = Ret 1 sh')
   \<and> ush_execute lp64_os [''exit'', ''now''] blank_shell = Ret 0 blank_shell
   \<and> ush_execute lp64_os [] blank_shell = Ret 1 blank_shell"
proof -
  have "\<forall>n. can_alloc lp64_os n" and "fork lp64_os = Fork_parent 0"
    by (simp_all add: lp64_os_def)
  with ush_execute_status [of lp64_os blank_shell "[''ls'', ''-l'']" "[''now'']"]
  show ?thesis by blast
qed

section \<open>echo: what is printed\<close>

lemma echo_loop_stdout:
  "echo_loop xs sh = sh\<lparr>stdout := stdout sh @ concat (map (\<lambda>a. a @ '' '') xs)\<rparr>"
  by (induction xs arbitrary: sh) (simp_all add: printf_def)

text \<open>
  Claim C7, as the code has it: every argument after the command name is printed
  followed by one space, and one newline ends the output. So \<^verbatim>\<open>echo a b c\<close> prints
  \<^verbatim>\<open>"a b c \n"\<close>, with a space before the newline, and \<^verbatim>\<open>echo\<close> alone prints \<^verbatim>\<open>"\n"\<close>;
  the handler returns 1.
\<close>

theorem ush_echo_prints:
  "ush_echo os args sh =
     Ret 1 (sh\<lparr>stdout := stdout sh @ concat (map (\<lambda>a. a @ '' '') (drop 1 args)) @ ''\<newline>''\<rparr>)
   \<and> ush_echo os [''echo'', ''a'', ''b'', ''c''] sh = Ret 1 (sh\<lparr>stdout := stdout sh @ ''a b c \<newline>''\<rparr>)
   \<and> ush_echo os [''echo''] sh = Ret 1 (sh\<lparr>stdout := stdout sh @ ''\<newline>''\<rparr>)"
  by (simp add: ush_echo_def echo_loop_stdout printf_def)

text \<open>
  Claim C7 as stated fails: \<^verbatim>\<open>echo a b c\<close> does not print exactly \<^verbatim>\<open>"a b c\n"\<close>.
\<close>

theorem ush_echo_trailing_space_counterexample:
  "stdout (state_of (ush_echo lp64_os [''echo'', ''a'', ''b'', ''c''] blank_shell)) \<noteq> ''a b c\<newline>''"
  by (simp add: ush_echo_def printf_def blank_shell_def)

end
